theory Spec2Isabelle
  imports Main "HOL-Library.Word" "HOL-Library.Multiset" "HOL-Library.AList" "HOL-Library.Char_ord" "HOL-Library.List_Lexorder"
begin

section \<open>Partition assignment (consumer.go, assignPartitionsToSubscribers)\<close>

text \<open>
  Go's \<^verbatim>\<open>int32\<close> and \<^verbatim>\<open>int64\<close> are words; \<^verbatim>\<open>Int32Slice.Less\<close> compares
  the signed values, so partitions are sorted by \<open>sint\<close>. Go compares strings byte by
  byte, which is the lexicographic order of \<open>char list\<close>. Lengths and slice indices
  are Go \<^verbatim>\<open>int\<close>s that never leave \<open>0 .. len\<close>; they are \<open>nat\<close> here.
\<close>

type_synonym int32 = "32 word"
type_synonym int64 = "64 word"

text \<open>
  \<^verbatim>\<open>map[string]map[int32]bool\<close>. Go reads a missing key, and any key of a nil map,
  as the zero value, so the nil map returned for empty input is the empty map here.
\<close>

type_synonym partitionSet = "int32 \<rightharpoonup> bool"
type_synonym assignment = "string \<rightharpoonup> partitionSet"

text \<open>\<^verbatim>\<open>partitionsToSubscribers[s][p]\<close> as Go evaluates it: false unless stored true.\<close>

definition assignedSet :: "assignment \<Rightarrow> string \<Rightarrow> int32 set" where
  "assignedSet m s = (case m s of None \<Rightarrow> {} | Some t \<Rightarrow> {p. t p = Some True})"

text \<open>\<^verbatim>\<open>xs[b:e]\<close> panics unless \<open>b \<le> e \<le> len xs\<close>; the panic is \<open>None\<close>.\<close>

definition slice :: "'a list \<Rightarrow> nat \<Rightarrow> nat \<Rightarrow> 'a list option" where
  "slice xs b e = (if b \<le> e \<and> e \<le> length xs then Some (take (e - b) (drop b xs)) else None)"

text \<open>The inner loop (lines 437-444): every partition of the block is stored under the subscriber.\<close>

fun assignBlock :: "assignment \<Rightarrow> string \<Rightarrow> int32 list \<Rightarrow> assignment" where
  "assignBlock m subscriberID [] = m"
| "assignBlock m subscriberID (p # rest) =
     (let topicAssignments = (case m subscriberID of None \<Rightarrow> Map.empty | Some t \<Rightarrow> t)
      in assignBlock (m(subscriberID \<mapsto> topicAssignments(p \<mapsto> True))) subscriberID rest)"

text \<open>The outer loop (lines 431-446) over the sorted subscribers, carrying \<open>extra\<close> and \<open>begin\<close>.\<close>

fun assignLoop :: "int32 list \<Rightarrow> nat \<Rightarrow> nat \<Rightarrow> nat \<Rightarrow> string list \<Rightarrow> assignment \<Rightarrow> assignment option" where
  "assignLoop partitions partitionsPerSubscriber extra begin [] m = Some m"
| "assignLoop partitions partitionsPerSubscriber extra begin (subscriberID # rest) m =
     (let end0 = begin + partitionsPerSubscriber;
          end1 = (if extra \<noteq> 0 then end0 + 1 else end0);
          extra1 = (if extra \<noteq> 0 then extra - 1 else extra)
      in case slice partitions begin end1 of
           None \<Rightarrow> None
         | Some block \<Rightarrow>
             assignLoop partitions partitionsPerSubscriber extra1 end1 rest
               (assignBlock m subscriberID block))"

text \<open>
  The function returns the map and, because \<^verbatim>\<open>sort.Sort\<close> permutes the backing arrays
  of the two slices it was given, leaves the caller's slices changed: the result is
  (partitions after the call, subscribers after the call, returned map), or \<open>None\<close>
  if a slice expression panics.
\<close>

definition assignPartitionsToSubscribers ::
  "int32 list \<Rightarrow> string list \<Rightarrow> (int32 list \<times> string list \<times> assignment) option" where
  "assignPartitionsToSubscribers partitions subscribers =
     (let partitionCount = length partitions;
          subscriberCount = length subscribers
      in if partitionCount = 0 \<or> subscriberCount = 0 then Some (partitions, subscribers, Map.empty)
         else
           let partitions1 = sort_key sint partitions;
               subscribers1 = sort subscribers;
               partitionsPerSubscriber = partitionCount div subscriberCount;
               extra = partitionCount - subscriberCount * partitionsPerSubscriber
           in case assignLoop partitions1 partitionsPerSubscriber extra 0 subscribers1 Map.empty of
                None \<Rightarrow> None
              | Some m \<Rightarrow> Some (partitions1, subscribers1, m))"

text \<open>What a caller reads from the returned map under one subscriber (as \<^verbatim>\<open>resolvePartitions\<close> does for its own client id).\<close>

definition assignedTo :: "int32 list \<Rightarrow> string list \<Rightarrow> string \<Rightarrow> int32 set" where
  "assignedTo partitions subscribers s =
     (case assignPartitionsToSubscribers partitions subscribers of
        None \<Rightarrow> {}
      | Some r \<Rightarrow> assignedSet (snd (snd r)) s)"

section \<open>Exclusive consumer (consumer.go, exclusiveConsumer.run)\<close>

text \<open>
  \<^verbatim>\<open>run\<close> is a sequential loop whose every step is a \<^verbatim>\<open>select\<close> (or a \<^verbatim>\<open>range\<close>)
  over channels. The model is the state machine the loop walks through: a control location,
  the two local offsets, the test-hook flag, and the trace of the calls it has made on its
  collaborators. An event is the one communication a \<^verbatim>\<open>select\<close> picks; the list of events
  is the choice of the scheduler and of the collaborators, and is arbitrary.
\<close>

text \<open>Of \<^verbatim>\<open>sarama.ConsumerMessage\<close> the loop reads the offset only.\<close>

record ConsumerMessage =
  Offset :: int64

datatype ecEvent =
    InitialOffset int64 \<comment> \<open>\<^verbatim>\<open>initialOffset = <-pom.InitialOffset()\<close>, its \<^verbatim>\<open>Offset\<close> field\<close>
  | FetchedMessage ConsumerMessage \<comment> \<open>\<^verbatim>\<open>msg = <-pc.Messages()\<close>\<close>
  | CommittedOffset int64 \<comment> \<open>\<^verbatim>\<open>committedOffset := <-pom.CommittedOffsets()\<close>, its \<^verbatim>\<open>Offset\<close> field\<close>
  | CommittedOffsetsClosed \<comment> \<open>\<^verbatim>\<open>pom.CommittedOffsets()\<close> is found closed\<close>
  | MessageTaken \<comment> \<open>\<^verbatim>\<open>ec.messagesCh <- msg\<close> went through\<close>
  | Ack ConsumerMessage \<comment> \<open>\<^verbatim>\<open><-ec.acksCh\<close>; the received value is dropped\<close>
  | Stop \<comment> \<open>\<^verbatim>\<open><-ec.stoppingCh\<close>, closed by \<^verbatim>\<open>stop\<close>\<close>

datatype ecAction =
    ClaimPartition \<comment> \<open>\<^verbatim>\<open>ec.registry.claimPartition(...)\<close>, evaluated by the \<^verbatim>\<open>defer\<close> statement\<close>
  | ManagePartition \<comment> \<open>\<^verbatim>\<open>ec.offsetMgr.ManagePartition(...)\<close>\<close>
  | ConsumePartition int64 \<comment> \<open>\<^verbatim>\<open>ec.dumbConsumer.ConsumePartition(topic, partition, offset)\<close>\<close>
  | SubmitOffset int64 \<comment> \<open>\<^verbatim>\<open>pom.SubmitOffset(offset, "")\<close>\<close>
  | NotifyFirstMessageFetched \<comment> \<open>\<^verbatim>\<open>firstMessageFetchedCh <- ec\<close>\<close>
  | Offer ConsumerMessage \<comment> \<open>the message was handed over on \<^verbatim>\<open>ec.messagesCh\<close>\<close>
  | ClosePartitionConsumer \<comment> \<open>deferred \<^verbatim>\<open>pc.Close()\<close>\<close>
  | ClosePartitionOffsetManager \<comment> \<open>deferred \<^verbatim>\<open>pom.Close()\<close>\<close>
  | ReleaseClaim \<comment> \<open>the deferred function returned by \<^verbatim>\<open>claimPartition\<close>\<close>

datatype ecLocation =
    WaitingInitialOffset \<comment> \<open>the \<^verbatim>\<open>select\<close> of lines 613-617\<close>
  | Fetching \<comment> \<open>the \<^verbatim>\<open>select\<close> of lines 641-654\<close>
  | Offering ConsumerMessage \<comment> \<open>the \<^verbatim>\<open>select\<close> of lines 660-672, holding \<^verbatim>\<open>msg\<close>\<close>
  | Draining \<comment> \<open>the \<^verbatim>\<open>range\<close> loop of lines 684-690\<close>
  | Returned \<comment> \<open>\<^verbatim>\<open>run\<close> has returned and its deferred calls have run\<close>
  | Panicked \<comment> \<open>\<^verbatim>\<open>run\<close> has panicked and its deferred calls have run\<close>

record ecState =
  location :: ecLocation
  lastSubmittedOffset :: int64
  lastCommittedOffset :: int64
  firstMessageFetched :: bool
  trace :: "ecAction list"

text \<open>
  What \<^verbatim>\<open>run\<close> takes from outside the file: the constant \<^verbatim>\<open>sarama.OffsetNewest\<close>, whether
  \<^verbatim>\<open>ManagePartition\<close> returns an error, what \<^verbatim>\<open>ConsumePartition\<close> returns for an initial
  offset (\<open>None\<close> an error, else the concrete offset), and whether the package variable
  \<^verbatim>\<open>firstMessageFetchedCh\<close> is set.
\<close>

record ecEnv =
  OffsetNewest :: int64
  managePartitionFails :: bool
  consumePartition :: "int64 \<Rightarrow> int64 option"
  firstMessageFetchedCh :: bool

text \<open>
  Lines 602-610. The two offsets are declared later (line 627) with the zero value; the
  state carries that value from the start. A panic runs the deferred calls registered so far.
\<close>

definition ecStart :: "ecEnv \<Rightarrow> ecState" where
  "ecStart env =
     (if managePartitionFails env
      then \<lparr>location = Panicked, lastSubmittedOffset = 0, lastCommittedOffset = 0,
            firstMessageFetched = False, trace = [ClaimPartition, ManagePartition, ReleaseClaim]\<rparr>
      else \<lparr>location = WaitingInitialOffset, lastSubmittedOffset = 0, lastCommittedOffset = 0,
            firstMessageFetched = False, trace = [ClaimPartition, ManagePartition]\<rparr>)"

text \<open>A return from the main loop or from the drain: the deferred calls, last registered first.\<close>

definition ecReturn :: "ecState \<Rightarrow> ecState" where
  "ecReturn s = s\<lparr>location := Returned,
       trace := trace s @ [ClosePartitionConsumer, ClosePartitionOffsetManager, ReleaseClaim]\<rparr>"

text \<open>The label \<^verbatim>\<open>done\<close> (lines 675-683).\<close>

definition ecDone :: "ecState \<Rightarrow> ecState" where
  "ecDone s = (if lastCommittedOffset s = lastSubmittedOffset s then ecReturn s
               else s\<lparr>location := Draining\<rparr>)"

text \<open>Lines 613-633: the wait for the initial offset, then the start of the partition consumer.\<close>

fun ecInit :: "ecEnv \<Rightarrow> ecState \<Rightarrow> ecEvent \<Rightarrow> ecState" where
  "ecInit env s (InitialOffset initialOffset) =
     (case consumePartition env initialOffset of
        None \<Rightarrow> s\<lparr>location := Panicked,
                  trace := trace s @ [ConsumePartition initialOffset, ClosePartitionOffsetManager, ReleaseClaim]\<rparr>
      | Some concreteOffset \<Rightarrow>
          if initialOffset = OffsetNewest env
          then s\<lparr>location := Fetching, lastSubmittedOffset := concreteOffset,
                 trace := trace s @ [ConsumePartition initialOffset, SubmitOffset concreteOffset]\<rparr>
          else s\<lparr>location := Fetching, trace := trace s @ [ConsumePartition initialOffset]\<rparr>)"
| "ecInit env s Stop =
     s\<lparr>location := Returned, trace := trace s @ [ClosePartitionOffsetManager, ReleaseClaim]\<rparr>"
| "ecInit env s _ = s"

text \<open>
  Lines 640-655. A receive from the closed \<^verbatim>\<open>CommittedOffsets\<close> channel yields the zero
  \<^verbatim>\<open>DecoratedOffset\<close>, whose offset is 0.
\<close>

fun ecFetch :: "ecEnv \<Rightarrow> ecState \<Rightarrow> ecEvent \<Rightarrow> ecState" where
  "ecFetch env s (FetchedMessage msg) =
     (if \<not> firstMessageFetched s \<and> firstMessageFetchedCh env
      then s\<lparr>location := Offering msg, firstMessageFetched := True,
             trace := trace s @ [NotifyFirstMessageFetched]\<rparr>
      else s\<lparr>location := Offering msg\<rparr>)"
| "ecFetch env s (CommittedOffset committedOffset) = s\<lparr>lastCommittedOffset := committedOffset\<rparr>"
| "ecFetch env s CommittedOffsetsClosed = s\<lparr>lastCommittedOffset := 0\<rparr>"
| "ecFetch env s Stop = ecDone s"
| "ecFetch env s _ = s"

text \<open>Lines 656-673, with \<^verbatim>\<open>msg\<close> the message on offer.\<close>

fun ecOffer :: "ConsumerMessage \<Rightarrow> ecState \<Rightarrow> ecEvent \<Rightarrow> ecState" where
  "ecOffer msg s MessageTaken = s\<lparr>trace := trace s @ [Offer msg]\<rparr>"
| "ecOffer msg s (Ack _) =
     s\<lparr>location := Fetching, lastSubmittedOffset := Offset msg + 1,
       trace := trace s @ [SubmitOffset (Offset msg + 1)]\<rparr>"
| "ecOffer msg s (CommittedOffset committedOffset) = s\<lparr>lastCommittedOffset := committedOffset\<rparr>"
| "ecOffer msg s CommittedOffsetsClosed = s\<lparr>lastCommittedOffset := 0\<rparr>"
| "ecOffer msg s Stop = ecDone s"
| "ecOffer msg s _ = s"

text \<open>
  Lines 684-691. The \<^verbatim>\<open>range\<close> loop ends when the channel is closed, and \<^verbatim>\<open>run\<close> then
  returns as well.
\<close>

fun ecDrain :: "ecState \<Rightarrow> ecEvent \<Rightarrow> ecState" where
  "ecDrain s (CommittedOffset committedOffset) =
     (if committedOffset = lastSubmittedOffset s then ecReturn s else s)"
| "ecDrain s CommittedOffsetsClosed = ecReturn s"
| "ecDrain s _ = s"

text \<open>
  One step: the event is what the \<^verbatim>\<open>select\<close> at the current location has picked. An event
  on a channel that this \<^verbatim>\<open>select\<close> does not list leaves the state as it is.
\<close>

definition ecStep :: "ecEnv \<Rightarrow> ecState \<Rightarrow> ecEvent \<Rightarrow> ecState" where
  "ecStep env s ev =
     (case location s of
        WaitingInitialOffset \<Rightarrow> ecInit env s ev
      | Fetching \<Rightarrow> ecFetch env s ev
      | Offering msg \<Rightarrow> ecOffer msg s ev
      | Draining \<Rightarrow> ecDrain s ev
      | Returned \<Rightarrow> s
      | Panicked \<Rightarrow> s)"

definition ecRun :: "ecEnv \<Rightarrow> ecEvent list \<Rightarrow> ecState" where
  "ecRun env evs = foldl (ecStep env) (ecStart env) evs"

text \<open>The offsets submitted so far, in order.\<close>

definition submitted :: "ecAction list \<Rightarrow> int64 list" where
  "submitted tr = concat (map (\<lambda>a. case a of SubmitOffset n \<Rightarrow> [n] | _ \<Rightarrow> []) tr)"


section \<open>Group consumer (consumer.go, groupConsumer)\<close>

text \<open>
  The fields of \<^verbatim>\<open>config.T\<close> the file reads; a \<^verbatim>\<open>time.Duration\<close> is an \<^verbatim>\<open>int64\<close> of
  nanoseconds.
\<close>

record config =
  ClientID :: string
  ChannelBufferSize :: nat
  LongPollingTimeout :: int64
  BackOffTimeout :: int64

text \<open>The error types the file declares, and an error made by \<^verbatim>\<open>fmt.Errorf\<close>.\<close>

datatype error = ErrSetup string | ErrBufferOverflow string | ErrRequestTimeout string | Errorf string

text \<open>
  Maps that the code ranges over are association lists here, the order of the list being
  the order in which Go happens to visit the keys. Of a \<^verbatim>\<open>topicConsumer\<close> the group
  consumer reads the topic only.
\<close>

record topicConsumer =
  tcTopic :: string

subsection \<open>The control loop of managePartitions\<close>

text \<open>
  \<^verbatim>\<open>nilOrRetryCh\<close> is nil, or the channel of a \<^verbatim>\<open>time.After\<close> timer that has not ticked
  yet, or such a channel after its only tick has been received.
\<close>

datatype retryChannel = NilRetryCh | RetryAfter int64 | RetrySpent

text \<open>
  The local variables of \<^verbatim>\<open>managePartitions\<close> (lines 234-243), then what the loop has
  set in motion: the number of \<^verbatim>\<open>rebalance\<close> goroutines that have been started and have not
  sent their result yet, the arguments of every \<^verbatim>\<open>go gc.rebalance(...)\<close>, the topic lists
  sent to the registry, and whether the loop is still running. \<^verbatim>\<open>rebalanceResultCh\<close> is the
  content of the buffered channel (capacity 1). \<^verbatim>\<open>nilOrRegistryTopicsCh\<close> is true when it
  is \<^verbatim>\<open>gc.registry.topics()\<close>, false when it is nil.
\<close>

record mpState =
  topicConsumers :: "(string \<times> topicConsumer) list"
  topics :: "string list"
  memberSubscriptions :: "(string \<times> string list) list"
  nilOrRetryCh :: retryChannel
  nilOrRegistryTopicsCh :: bool
  shouldRebalance :: bool
  canRebalance :: bool
  rebalanceResultCh :: "error option list"
  rebalancing :: nat
  rebalances :: "((string \<times> topicConsumer) list \<times> (string \<times> string list) list) list"
  sentTopics :: "string list list"
  looping :: bool

datatype mpEvent =
    AddTopicConsumer topicConsumer \<comment> \<open>\<^verbatim>\<open>tc := <-gc.addTopicConsumerCh\<close>\<close>
  | DeleteTopicConsumer topicConsumer \<comment> \<open>\<^verbatim>\<open>tc := <-gc.deleteTopicConsumerCh\<close>\<close>
  | TopicsSent \<comment> \<open>\<^verbatim>\<open>nilOrRegistryTopicsCh <- topics\<close> went through\<close>
  | MembershipChange "(string \<times> string list) list" \<comment> \<open>a value from \<^verbatim>\<open>gc.registry.membershipChanges()\<close>\<close>
  | MembershipChangesClosed \<comment> \<open>that channel is found closed\<close>
  | RebalanceResult \<comment> \<open>\<^verbatim>\<open>err := <-rebalanceResultCh\<close>\<close>
  | RetryTick \<comment> \<open>\<^verbatim>\<open><-nilOrRetryCh\<close>\<close>
  | RebalanceFinished "error option" \<comment> \<open>a running \<^verbatim>\<open>rebalance\<close> does its one send \<^verbatim>\<open>rebalanceResultCh <- err\<close>\<close>

datatype flow = Continue | FallThrough | GotoDone

definition mpInit :: mpState where
  "mpInit = \<lparr>topicConsumers = [], topics = [], memberSubscriptions = [], nilOrRetryCh = NilRetryCh,
     nilOrRegistryTopicsCh = False, shouldRebalance = False, canRebalance = True,
     rebalanceResultCh = [], rebalancing = 0, rebalances = [], sentTopics = [], looping = True\<rparr>"

definition listTopics :: "(string \<times> topicConsumer) list \<Rightarrow> string list" where
  "listTopics tcs = map fst tcs"

text \<open>
  The \<^verbatim>\<open>select\<close> of lines 245-274: the new state and how the iteration goes on. A case
  whose channel is nil, empty or spent cannot be picked; such an event leaves the state as
  it is.
\<close>

fun mpSelect :: "config \<Rightarrow> mpState \<Rightarrow> mpEvent \<Rightarrow> mpState \<times> flow" where
  "mpSelect cfg s (AddTopicConsumer tc) =
     (let tcs = AList.update (tcTopic tc) tc (topicConsumers s)
      in (s\<lparr>topicConsumers := tcs, topics := listTopics tcs, nilOrRegistryTopicsCh := True\<rparr>, Continue))"
| "mpSelect cfg s (DeleteTopicConsumer tc) =
     (let tcs = AList.delete (tcTopic tc) (topicConsumers s)
      in (s\<lparr>topicConsumers := tcs, topics := listTopics tcs, nilOrRegistryTopicsCh := True\<rparr>, Continue))"
| "mpSelect cfg s TopicsSent =
     (if nilOrRegistryTopicsCh s
      then (s\<lparr>nilOrRegistryTopicsCh := False, sentTopics := sentTopics s @ [topics s]\<rparr>, Continue)
      else (s, Continue))"
| "mpSelect cfg s (MembershipChange subscriptions) =
     (s\<lparr>memberSubscriptions := subscriptions, nilOrRetryCh := NilRetryCh, shouldRebalance := True\<rparr>,
      FallThrough)"
| "mpSelect cfg s MembershipChangesClosed = (s\<lparr>memberSubscriptions := []\<rparr>, GotoDone)"
| "mpSelect cfg s RebalanceResult =
     (case rebalanceResultCh s of
        [] \<Rightarrow> (s, Continue)
      | err # rest \<Rightarrow>
          (case err of
             Some e \<Rightarrow>
               (s\<lparr>rebalanceResultCh := rest, canRebalance := True,
                  nilOrRetryCh := RetryAfter (BackOffTimeout cfg)\<rparr>, Continue)
           | None \<Rightarrow> (s\<lparr>rebalanceResultCh := rest, canRebalance := True\<rparr>, FallThrough)))"
| "mpSelect cfg s RetryTick =
     (case nilOrRetryCh s of
        RetryAfter d \<Rightarrow> (s\<lparr>nilOrRetryCh := RetrySpent, shouldRebalance := True\<rparr>, FallThrough)
      | _ \<Rightarrow> (s, Continue))"
| "mpSelect cfg s (RebalanceFinished err) = (s, Continue)"

text \<open>Lines 276-285: the snapshot, the \<^verbatim>\<open>go gc.rebalance(...)\<close> and the two flags.\<close>

definition mpRebalanceIfDue :: "mpState \<Rightarrow> mpState" where
  "mpRebalanceIfDue s =
     (if shouldRebalance s \<and> canRebalance s
      then s\<lparr>rebalancing := rebalancing s + 1,
             rebalances := rebalances s @ [(topicConsumers s, memberSubscriptions s)],
             shouldRebalance := False, canRebalance := False\<rparr>
      else s)"

text \<open>
  One step of the system made of the loop and the \<^verbatim>\<open>rebalance\<close> goroutines it has started.
  A goroutine finishes by its one send on \<^verbatim>\<open>rebalanceResultCh\<close>, which needs room in the
  buffer; every other event is an iteration of the loop, if the loop is still running.
\<close>

definition mpStep :: "config \<Rightarrow> mpState \<Rightarrow> mpEvent \<Rightarrow> mpState" where
  "mpStep cfg s ev =
     (case ev of
        RebalanceFinished err \<Rightarrow>
          (if 0 < rebalancing s \<and> length (rebalanceResultCh s) < 1
           then s\<lparr>rebalancing := rebalancing s - 1, rebalanceResultCh := rebalanceResultCh s @ [err]\<rparr>
           else s)
      | _ \<Rightarrow>
          (if \<not> looping s then s
           else case mpSelect cfg s ev of
                  (s', Continue) \<Rightarrow> s'
                | (s', FallThrough) \<Rightarrow> mpRebalanceIfDue s'
                | (s', GotoDone) \<Rightarrow> s'\<lparr>looping := False\<rparr>))"

definition managePartitions :: "config \<Rightarrow> mpEvent list \<Rightarrow> mpState" where
  "managePartitions cfg evs = foldl (mpStep cfg) mpInit evs"

text \<open>Every started rebalance is either still running or has its result waiting in the channel.\<close>

definition oneRebalance :: "mpState \<Rightarrow> bool" where
  "oneRebalance s \<longleftrightarrow>
     rebalancing s + length (rebalanceResultCh s) = (if canRebalance s then 0 else 1)"

text \<open>A retry timer that has not ticked was armed with the back-off, and a rebalance may start when it ticks.\<close>

definition retryArmed :: "config \<Rightarrow> mpState \<Rightarrow> bool" where
  "retryArmed cfg s \<longleftrightarrow>
     oneRebalance s \<and> (\<forall>d. nilOrRetryCh s = RetryAfter d \<longrightarrow> canRebalance s \<and> d = BackOffTimeout cfg)"

subsection \<open>Topic gears: rewireMultiplexer and the end of rebalance\<close>

text \<open>
  An exclusive consumer as \<^verbatim>\<open>spawnExclusiveConsumer(topic, partition)\<close> makes it, and a
  multiplexer as \<^verbatim>\<open>spawnMultiplexer\<close> makes it from its inputs.
\<close>

datatype exclusiveConsumer = ExclusiveConsumer string int32

datatype multiplexer = Multiplexer "exclusiveConsumer list"

record topicGear =
  topicConsumer :: topicConsumer
  multiplexer :: "multiplexer option"
  exclusiveConsumers :: "(int32 \<times> exclusiveConsumer) list"

text \<open>\<^verbatim>\<open>assigned[partition]\<close> on a \<^verbatim>\<open>map[int32]bool\<close> that may be nil (the empty list).\<close>

definition isAssigned :: "(int32 \<times> bool) list \<Rightarrow> int32 \<Rightarrow> bool" where
  "isAssigned assigned p = (map_of assigned p = Some True)"

text \<open>
  The body of the first loop (lines 351-358) for one entry of \<^verbatim>\<open>tg.exclusiveConsumers\<close>:
  the multiplexer, if any, is stopped and forgotten, the exclusive consumer is stopped and
  its entry deleted.
\<close>

definition stopUnassigned :: "(int32 \<times> bool) list \<Rightarrow> int32 \<times> exclusiveConsumer \<Rightarrow> topicGear \<Rightarrow> topicGear" where
  "stopUnassigned assigned entry tg =
     (if \<not> isAssigned assigned (fst entry)
      then tg\<lparr>multiplexer := None,
              exclusiveConsumers := AList.delete (fst entry) (exclusiveConsumers tg)\<rparr>
      else tg)"

text \<open>The body of the second loop (lines 362-369) for one key of \<^verbatim>\<open>assigned\<close>.\<close>

definition startAssigned :: "int32 \<times> bool \<Rightarrow> topicGear \<Rightarrow> topicGear" where
  "startAssigned entry tg =
     (if map_of (exclusiveConsumers tg) (fst entry) = None
      then tg\<lparr>multiplexer := None,
              exclusiveConsumers :=
                AList.update (fst entry) (ExclusiveConsumer (tcTopic (topicConsumer tg)) (fst entry))
                  (exclusiveConsumers tg)\<rparr>
      else tg)"

text \<open>Lines 371-377.\<close>

definition respawnMultiplexer :: "topicGear \<Rightarrow> topicGear" where
  "respawnMultiplexer tg =
     (if multiplexer tg = None \<and> length (exclusiveConsumers tg) > 0
      then tg\<lparr>multiplexer := Some (Multiplexer (map snd (exclusiveConsumers tg)))\<rparr>
      else tg)"

text \<open>
  The two loops of a call (lines 349-370). The first ranges over the entries the gear has
  when the call starts and deletes only the entry it is visiting; the second ranges over
  \<^verbatim>\<open>assigned\<close>.
\<close>

definition rewireLoops :: "topicGear \<Rightarrow> (int32 \<times> bool) list \<Rightarrow> topicGear" where
  "rewireLoops tg assigned =
     fold startAssigned assigned (fold (stopUnassigned assigned) (exclusiveConsumers tg) tg)"

text \<open>
  A call of \<^verbatim>\<open>rewireMultiplexer\<close> that runs alone on its gear: no other goroutine touches
  the gear between its first and its last statement. The calls that \<^verbatim>\<open>rebalance\<close> makes are
  such calls as long as the loop of \<^verbatim>\<open>managePartitions\<close> runs, which starts no rebalance
  before the result of the one before.
\<close>

definition rewireMultiplexer :: "topicGear \<Rightarrow> (int32 \<times> bool) list \<Rightarrow> topicGear" where
  "rewireMultiplexer tg assigned = respawnMultiplexer (rewireLoops tg assigned)"

text \<open>
  The function takes no lock, and a call does not always run alone: when the membership
  channel is closed, \<^verbatim>\<open>managePartitions\<close> goes to \<^verbatim>\<open>done\<close> (lines 287-293) and calls
  \<^verbatim>\<open>rewireMultiplexer(tg, nil)\<close> on every gear without waiting for the rebalance it may
  have started at line 283. This is one schedule of two calls on the same gear: the call
  with \<^verbatim>\<open>assigned\<close> runs its two loops, then the other call runs from its first to its last
  statement, then the first call runs its last statement (lines 371-377) and returns.
\<close>

definition rewireOverlapped ::
  "topicGear \<Rightarrow> (int32 \<times> bool) list \<Rightarrow> (int32 \<times> bool) list \<Rightarrow> topicGear" where
  "rewireOverlapped tg assigned other =
     respawnMultiplexer (rewireMultiplexer (rewireLoops tg assigned) other)"

text \<open>The gear that \<^verbatim>\<open>rebalance\<close> makes for a topic consumed for the first time (lines 324-327).\<close>

definition newTopicGear :: "topicConsumer \<Rightarrow> topicGear" where
  "newTopicGear tc = \<lparr>topicConsumer = tc, multiplexer = None, exclusiveConsumers = []\<rparr>"

text \<open>\<^verbatim>\<open>assignedPartitions[topic]\<close>: nil, the empty map, for a topic that is not a key.\<close>

definition assignedFor :: "(string \<times> (int32 \<times> bool) list) list \<Rightarrow> string \<Rightarrow> (int32 \<times> bool) list" where
  "assignedFor assignedPartitions topic =
     (case map_of assignedPartitions topic of None \<Rightarrow> [] | Some assigned \<Rightarrow> assigned)"

text \<open>The body of the loop of lines 318-331 for one entry of \<^verbatim>\<open>assignedPartitions\<close>.\<close>

definition addTopicGear ::
  "(string \<times> topicConsumer) list \<Rightarrow> string \<times> (int32 \<times> bool) list \<Rightarrow>
   (string \<times> topicGear) list \<Rightarrow> (string \<times> topicGear) list" where
  "addTopicGear tcs entry gears =
     (case map_of tcs (fst entry) of
        None \<Rightarrow> gears
      | Some tc \<Rightarrow>
          (case map_of gears (fst entry) of
             Some tg \<Rightarrow> gears
           | None \<Rightarrow> AList.update (fst entry) (rewireMultiplexer (newTopicGear tc) (snd entry)) gears))"

text \<open>The body of the loop of lines 334-338 for one entry of \<^verbatim>\<open>gc.topicGears\<close>.\<close>

definition dropIdleGear :: "string \<times> topicGear \<Rightarrow> (string \<times> topicGear) list \<Rightarrow> (string \<times> topicGear) list" where
  "dropIdleGear entry gears =
     (if multiplexer (snd entry) = None then AList.delete (fst entry) gears else gears)"

text \<open>
  \<^verbatim>\<open>rebalance\<close> on \<^verbatim>\<open>gc.topicGears\<close>, given the snapshot of the topic consumers and what
  \<^verbatim>\<open>gc.resolvePartitions(memberSubscriptions)\<close> returned. The result is the new
  \<^verbatim>\<open>gc.topicGears\<close> and the value sent on \<^verbatim>\<open>rebalanceResultCh\<close>. The calls of
  \<^verbatim>\<open>rewireMultiplexer\<close> run as goroutines, one for each gear and each on its own gear, and
  are all waited for (line 332) before the idle gears are dropped. This is a rebalance
  during which \<^verbatim>\<open>managePartitions\<close> does not reach \<^verbatim>\<open>done\<close>, so that each of its calls
  runs alone.
\<close>

definition rebalance ::
  "(string \<times> topicGear) list \<Rightarrow> (string \<times> topicConsumer) list \<Rightarrow>
   error + (string \<times> (int32 \<times> bool) list) list \<Rightarrow> (string \<times> topicGear) list \<times> error option" where
  "rebalance topicGears tcs resolved =
     (case resolved of
        Inl err \<Rightarrow> (topicGears, Some err)
      | Inr assignedPartitions \<Rightarrow>
          (let rewired = map (\<lambda>(topic, tg). (topic, rewireMultiplexer tg (assignedFor assignedPartitions topic)))
                           topicGears;
               added = fold (addTopicGear tcs) assignedPartitions rewired
           in (fold dropIdleGear added added, None)))"

text \<open>
  The gear invariant of the specification that does not mention the assignment: the
  multiplexer is present if and only if there is an exclusive consumer.
\<close>

definition gearWired :: "topicGear \<Rightarrow> bool" where
  "gearWired tg \<longleftrightarrow> (multiplexer tg \<noteq> None) = (exclusiveConsumers tg \<noteq> [])"

text \<open>\<^verbatim>\<open>gc.topicGears\<close> after a sequence of rebalances, starting from the empty map (line 166).\<close>

definition topicGearsAfter ::
  "((string \<times> topicConsumer) list \<times> (error + (string \<times> (int32 \<times> bool) list) list)) list \<Rightarrow>
   (string \<times> topicGear) list" where
  "topicGearsAfter calls = foldl (\<lambda>gears call. fst (rebalance gears (fst call) (snd call))) [] calls"

text \<open>A multiplexer is never left wired to nothing.\<close>

definition muxHasInputs :: "topicGear \<Rightarrow> bool" where
  "muxHasInputs tg \<longleftrightarrow> (multiplexer tg \<noteq> None \<longrightarrow> exclusiveConsumers tg \<noteq> [])"

text \<open>Every gear in \<^verbatim>\<open>gc.topicGears\<close> has a multiplexer and at least one exclusive consumer.\<close>

definition gearsBusy :: "(string \<times> topicGear) list \<Rightarrow> bool" where
  "gearsBusy gears \<longleftrightarrow>
     (\<forall>e\<in>set gears. multiplexer (snd e) \<noteq> None \<and> exclusiveConsumers (snd e) \<noteq> [])"

section \<open>Topic consumer and Consume (consumer.go, topicConsumer.run, T.Consume)\<close>

text \<open>
  A \<^verbatim>\<open>time.Time\<close> in UTC is a number of nanoseconds. \<^verbatim>\<open>Time.Sub\<close> returns the difference
  as a \<^verbatim>\<open>Duration\<close> and, when the difference does not fit, the largest or the smallest
  \<^verbatim>\<open>Duration\<close>.
\<close>

definition timeSub :: "int \<Rightarrow> int \<Rightarrow> int64" where
  "timeSub t u =
     (if t - u > 2 ^ 63 - 1 then word_of_int (2 ^ 63 - 1)
      else if t - u < - (2 ^ 63) then word_of_int (- (2 ^ 63))
      else word_of_int (t - u))"

text \<open>A reply channel is known by its identity; what is sent on it is in the trace below.\<close>

record consumeResult =
  Msg :: "ConsumerMessage option"
  Err :: "error option"

record consumeRequest =
  timestamp :: int
  group :: string
  topic :: string
  replyCh :: nat

text \<open>
  What the \<^verbatim>\<open>select\<close> of lines 542-547 picks: a message from \<^verbatim>\<open>tc.messagesCh\<close>, or the
  value that the channel of \<^verbatim>\<open>time.After(ttl)\<close> delivers.
\<close>

datatype selectOutcome = MessageReceived ConsumerMessage | TimerFired

text \<open>
  What the loop of the topic consumer does to the outside: the receives from
  \<^verbatim>\<open>tc.messagesCh\<close>, the receives from a timer and the sends on reply channels. The channel
  of \<^verbatim>\<open>time.After(d)\<close> delivers its value once the duration \<open>d\<close> has elapsed since the call,
  so a receive from it records that duration.
\<close>

datatype tcEffect =
    MessageConsumed ConsumerMessage \<comment> \<open>\<^verbatim>\<open>msg := <-tc.messagesCh\<close>\<close>
  | TimeAfter int64 \<comment> \<open>\<^verbatim>\<open><-time.After(d)\<close>: the duration \<open>d\<close> has elapsed\<close>
  | Reply nat consumeResult \<comment> \<open>\<^verbatim>\<open>consumeReq.replyCh <- result\<close>\<close>

definition timeoutResult :: consumeResult where
  "timeoutResult = \<lparr>Msg = None, Err = Some (ErrRequestTimeout ''long polling timeout'')\<rparr>"

text \<open>Lines 531-532, with \<open>now\<close> the value of \<^verbatim>\<open>time.Now().UTC()\<close>; the subtraction is on \<^verbatim>\<open>int64\<close>.\<close>

definition requestTtl :: "config \<Rightarrow> consumeRequest \<Rightarrow> int \<Rightarrow> int64" where
  "requestTtl cfg consumeReq now =
     (let requestAge = timeSub now (timestamp consumeReq)
      in LongPollingTimeout cfg - requestAge)"

text \<open>
  The body of the loop (lines 531-547) for one request taken from \<^verbatim>\<open>tc.requestsCh\<close>. The
  comparison \<^verbatim>\<open>ttl <= 0\<close> is signed. The outcome of the \<^verbatim>\<open>select\<close> matters only when the
  \<^verbatim>\<open>select\<close> is reached; its timer is \<^verbatim>\<open>time.After(ttl)\<close>.
\<close>

definition serveRequest :: "config \<Rightarrow> consumeRequest \<Rightarrow> int \<Rightarrow> selectOutcome \<Rightarrow> tcEffect list" where
  "serveRequest cfg consumeReq now outcome =
     (let ttl = requestTtl cfg consumeReq now
      in if sint ttl \<le> 0 then [Reply (replyCh consumeReq) timeoutResult]
         else case outcome of
                MessageReceived msg \<Rightarrow>
                  [MessageConsumed msg, Reply (replyCh consumeReq) \<lparr>Msg = Some msg, Err = None\<rparr>]
              | TimerFired \<Rightarrow> [TimeAfter ttl, Reply (replyCh consumeReq) timeoutResult])"

text \<open>The results sent on one reply channel, in order.\<close>

definition repliesOn :: "nat \<Rightarrow> tcEffect list \<Rightarrow> consumeResult list" where
  "repliesOn ch effects = concat (map (\<lambda>e. case e of Reply c res \<Rightarrow> (if c = ch then [res] else []) | _ \<Rightarrow> []) effects)"

text \<open>
  \<^verbatim>\<open>Consume\<close> (lines 108-113) makes a fresh reply channel, sends the request and returns the
  first value it receives on the channel; given nothing, it blocks (\<open>None\<close>). Its argument
  is what is sent on that channel.
\<close>

definition Consume :: "consumeResult list \<Rightarrow> (ConsumerMessage option \<times> error option) option" where
  "Consume sent = (case sent of [] \<Rightarrow> None | result # _ \<Rightarrow> Some (Msg result, Err result))"

subsection \<open>The hand-off from the dispatcher\<close>

text \<open>
  Modelled from the spec: the dispatcher (dispatcher.go) is not among the sources. Section
  4.E: the dispatcher forwards a request onto the child's requests channel using a
  non-blocking offer; if the child's queue is full, it replies with BUFFER_OVERFLOW. The
  queue of a topic consumer is bounded by \<^verbatim>\<open>ChannelBufferSize\<close> (line 492).
\<close>

definition overflowResult :: consumeResult where
  "overflowResult = \<lparr>Msg = None, Err = Some (ErrBufferOverflow ''buffer overflow'')\<rparr>"

definition dispatch :: "config \<Rightarrow> consumeRequest list \<Rightarrow> consumeRequest \<Rightarrow> consumeRequest list \<times> tcEffect list" where
  "dispatch cfg queue req =
     (if length queue < ChannelBufferSize cfg then (queue @ [req], [])
      else (queue, [Reply (replyCh req) overflowResult]))"

subsection \<open>The run of a topic consumer\<close>

text \<open>
  \<^verbatim>\<open>run\<close> (lines 521-549) first sends the topic consumer to its group consumer, on the
  unbuffered channel \<^verbatim>\<open>addTopicConsumerCh\<close> (lines 167 and 523). The send goes through when
  the loop of \<^verbatim>\<open>managePartitions\<close> receives it (line 246), and until then \<^verbatim>\<open>run\<close> stays at
  line 523, while the dispatcher may already put requests into the queue. After the send
  \<^verbatim>\<open>run\<close> ranges over \<^verbatim>\<open>tc.requestsCh\<close>. The state: whether the send has gone through, the
  content of the queue, and what the loop has done so far.
\<close>

record tcSystem =
  addedToGroup :: bool
  requestsCh :: "consumeRequest list"
  effects :: "tcEffect list"

text \<open>
  The steps: the group consumer receives the topic consumer; the dispatcher hands a
  request over; the loop takes the request at the head of the queue and serves it, which
  it can do only after line 523.
\<close>

datatype tcOp = AddedToGroup | Submit consumeRequest | Serve int selectOutcome

definition tcSystemStart :: tcSystem where
  "tcSystemStart = \<lparr>addedToGroup = False, requestsCh = [], effects = []\<rparr>"

definition tcSystemStep :: "config \<Rightarrow> tcSystem \<Rightarrow> tcOp \<Rightarrow> tcSystem" where
  "tcSystemStep cfg s op =
     (case op of
        AddedToGroup \<Rightarrow> s\<lparr>addedToGroup := True\<rparr>
      | Submit req \<Rightarrow>
          (case dispatch cfg (requestsCh s) req of
             (queue, replies) \<Rightarrow> s\<lparr>requestsCh := queue, effects := effects s @ replies\<rparr>)
      | Serve now outcome \<Rightarrow>
          (if \<not> addedToGroup s then s
           else case requestsCh s of
                  [] \<Rightarrow> s
                | consumeReq # rest \<Rightarrow>
                    s\<lparr>requestsCh := rest, effects := effects s @ serveRequest cfg consumeReq now outcome\<rparr>))"

text \<open>
  \<^verbatim>\<open>stop\<close> closes the queue and waits for \<^verbatim>\<open>run\<close>. A loop that is running still receives
  what the queue holds, then ends; \<open>found\<close> gives, for a request, the time and the
  \<^verbatim>\<open>select\<close> outcome found when it is served. A \<^verbatim>\<open>run\<close> that is still at line 523 receives
  nothing. (The deferred send of lines 524-526, on an unbuffered channel too, comes after
  the last reply and is left out.)
\<close>

definition tcSystemStop :: "config \<Rightarrow> (consumeRequest \<Rightarrow> int \<times> selectOutcome) \<Rightarrow> tcSystem \<Rightarrow> tcSystem" where
  "tcSystemStop cfg found s =
     (if \<not> addedToGroup s then s
      else s\<lparr>requestsCh := [],
             effects := effects s @
               concat (map (\<lambda>consumeReq.
                              serveRequest cfg consumeReq (fst (found consumeReq)) (snd (found consumeReq)))
                         (requestsCh s))\<rparr>)"

definition tcSystemRun ::
  "config \<Rightarrow> (consumeRequest \<Rightarrow> int \<times> selectOutcome) \<Rightarrow> tcOp list \<Rightarrow> tcSystem" where
  "tcSystemRun cfg found ops = tcSystemStop cfg found (foldl (tcSystemStep cfg) tcSystemStart ops)"

text \<open>The requests handed to the dispatcher in a list of operations.\<close>

definition submittedRequests :: "tcOp list \<Rightarrow> consumeRequest list" where
  "submittedRequests ops = concat (map (\<lambda>op. case op of Submit req \<Rightarrow> [req] | _ \<Rightarrow> []) ops)"

text \<open>Replies sent and requests waiting on a channel add up to the requests handed over on it.\<close>

definition repliesBalance :: "tcSystem \<Rightarrow> consumeRequest list \<Rightarrow> bool" where
  "repliesBalance s handed \<longleftrightarrow>
     (\<forall>ch. length (repliesOn ch (effects s)) + length (filter (\<lambda>r. replyCh r = ch) (requestsCh s)) =
            length (filter (\<lambda>r. replyCh r = ch) handed))"

text \<open>The three kinds of reply: a message, the timeout error, the overflow error.\<close>

definition properReply :: "consumeResult \<Rightarrow> bool" where
  "properReply res \<longleftrightarrow>
     (\<exists>msg. res = \<lparr>Msg = Some msg, Err = None\<rparr>) \<or> res = timeoutResult \<or> res = overflowResult"

text \<open>Every reply sent so far is a message, a timeout or an overflow.\<close>

definition properReplies :: "tcSystem \<Rightarrow> bool" where
  "properReplies s \<longleftrightarrow> (\<forall>ch. \<forall>res\<in>set (repliesOn ch (effects s)). properReply res)"

section \<open>Properties of the partition assignment\<close>

lemma assigned_update:
  "assignedSet (m(s \<mapsto> (case m s of None \<Rightarrow> Map.empty | Some t \<Rightarrow> t)(p \<mapsto> True))) s' =
     (if s' = s then insert p (assignedSet m s) else assignedSet m s')"
  by (auto simp: assignedSet_def split: option.splits)

lemma assigned_assignBlock:
  "assignedSet (assignBlock m s blk) s' = (if s' = s then assignedSet m s \<union> set blk else assignedSet m s')"
proof (induction blk arbitrary: m)
  case Nil
  then show ?case by simp
next
  case (Cons p blk)
  show ?case
    by (simp only: assignBlock.simps Let_def Cons.IH assigned_update) auto
qed

lemma UN_index_Cons:
  "(\<Union>i\<in>{i. i < length (a # rest) \<and> (a # rest) ! i = s}. F i) =
     (if a = s then F 0 else {}) \<union> (\<Union>j\<in>{j. j < length rest \<and> rest ! j = s}. F (Suc j))"
proof -
  have "{i. i < length (a # rest) \<and> (a # rest) ! i = s} =
        (if a = s then {0} else {}) \<union> Suc ` {j. j < length rest \<and> rest ! j = s}"
  proof (intro set_eqI)
    fix i
    show "i \<in> {i. i < length (a # rest) \<and> (a # rest) ! i = s} \<longleftrightarrow>
          i \<in> (if a = s then {0} else {}) \<union> Suc ` {j. j < length rest \<and> rest ! j = s}"
      by (cases i) auto
  qed
  then show ?thesis by auto
qed

lemma assignLoop_spec:
  "b + q * length ss + e = length sp \<Longrightarrow> e \<le> length ss \<Longrightarrow>
   \<exists>m'. assignLoop sp q e b ss m = Some m' \<and>
     (\<forall>s. assignedSet m' s = assignedSet m s \<union>
        (\<Union>i\<in>{i. i < length ss \<and> ss ! i = s}.
            set (take (q + (if i < e then 1 else 0)) (drop (b + i * q + min i e) sp))))"
proof (induction ss arbitrary: b e m)
  case Nil
  then show ?case by simp
next
  case (Cons a rest)
  define end1 where "end1 = (if e \<noteq> 0 then b + q + 1 else b + q)"
  define e1 where "e1 = (if e \<noteq> 0 then e - 1 else e)"
  define blk where "blk = take (end1 - b) (drop b sp)"
  have le: "end1 \<le> length sp" "b \<le> end1"
    using Cons.prems by (auto simp: end1_def)
  have sl: "slice sp b end1 = Some blk"
    using le by (simp add: slice_def blk_def)
  have p1: "end1 + q * length rest + e1 = length sp"
    using Cons.prems by (auto simp: end1_def e1_def)
  have p2: "e1 \<le> length rest"
    using Cons.prems by (auto simp: e1_def)
  from Cons.IH [OF p1 p2, of "assignBlock m a blk"]
  obtain m' where m': "assignLoop sp q e1 end1 rest (assignBlock m a blk) = Some m'"
    and spec: "\<And>s. assignedSet m' s = assignedSet (assignBlock m a blk) s \<union>
        (\<Union>j\<in>{j. j < length rest \<and> rest ! j = s}.
            set (take (q + (if j < e1 then 1 else 0)) (drop (end1 + j * q + min j e1) sp)))"
    by blast
  have run: "assignLoop sp q e b (a # rest) m = Some m'"
    using m' sl by (simp add: Let_def end1_def e1_def)
  have shift: "\<And>j. take (q + (if j < e1 then 1 else 0)) (drop (end1 + j * q + min j e1) sp) =
      take (q + (if Suc j < e then 1 else 0)) (drop (b + Suc j * q + min (Suc j) e) sp)"
  proof -
    fix j
    have "end1 + j * q + min j e1 = b + Suc j * q + min (Suc j) e"
      by (auto simp: end1_def e1_def min_def)
    moreover have "(j < e1) = (Suc j < e)"
      by (auto simp: e1_def)
    ultimately show "take (q + (if j < e1 then 1 else 0)) (drop (end1 + j * q + min j e1) sp) =
      take (q + (if Suc j < e then 1 else 0)) (drop (b + Suc j * q + min (Suc j) e) sp)"
      by (simp only:)
  qed
  have blk0: "blk = take (q + (if 0 < e then 1 else 0)) (drop (b + 0 * q + min 0 e) sp)"
    by (auto simp: blk_def end1_def)
  have "\<forall>s. assignedSet m' s = assignedSet m s \<union>
        (\<Union>i\<in>{i. i < length (a # rest) \<and> (a # rest) ! i = s}.
            set (take (q + (if i < e then 1 else 0)) (drop (b + i * q + min i e) sp)))"
  proof
    fix s
    show "assignedSet m' s = assignedSet m s \<union>
        (\<Union>i\<in>{i. i < length (a # rest) \<and> (a # rest) ! i = s}.
            set (take (q + (if i < e then 1 else 0)) (drop (b + i * q + min i e) sp)))"
      unfolding UN_index_Cons spec shift assigned_assignBlock
      using blk0 by auto
  qed
  with run show ?case by blast
qed

lemma block_start_Suc:
  "Suc i * q + min (Suc i) r = (i * q + min i r) + (q + (if i < r then 1 else 0))"
  by (auto simp: min_def)

lemma block_start_le:
  "i \<le> k \<Longrightarrow> i * q + min i r \<le> k * q + (r::nat)"
proof -
  assume "i \<le> k"
  then have "i * q \<le> k * q" by simp
  moreover have "min i r \<le> r" by simp
  ultimately show ?thesis by (rule add_mono)
qed

lemma set_blocks_upto:
  "(\<Union>i\<in>{i. i < k}. set (take (q + (if i < r then 1 else 0)) (drop (i * q + min i r) xs))) =
     set (take (k * q + min k r) xs)"
proof (induction k)
  case 0
  then show ?case by simp
next
  case (Suc k)
  have split: "{i. i < Suc k} = insert k {i. i < k}" by auto
  have "set (take (Suc k * q + min (Suc k) r) xs) =
        set (take (k * q + min k r) xs) \<union>
        set (take (q + (if k < r then 1 else 0)) (drop (k * q + min k r) xs))"
    by (simp only: block_start_Suc take_add [of "k * q + min k r"] set_append)
  then show ?case unfolding split using Suc.IH by auto
qed

lemma blocks_disjoint:
  assumes "distinct xs" "a + l \<le> b"
  shows "set (take l (drop a xs)) \<inter> set (take l' (drop b xs)) = {}"
proof -
  have "take l (drop a xs) = drop a (take (a + l) xs)"
    by (simp add: drop_take add.commute)
  then have "set (take l (drop a xs)) \<subseteq> set (take (a + l) xs)"
    by (simp add: set_drop_subset)
  also have "\<dots> \<subseteq> set (take b xs)"
    using assms(2) by (rule set_take_subset_set_take)
  finally have 1: "set (take l (drop a xs)) \<subseteq> set (take b xs)" .
  have 2: "set (take l' (drop b xs)) \<subseteq> set (drop b xs)"
    by (rule set_take_subset)
  have "distinct (take b xs @ drop b xs)" using assms(1) by simp
  then have "set (take b xs) \<inter> set (drop b xs) = {}"
    by (simp only: distinct_append)
  with 1 2 show ?thesis by blast
qed

lemma block_card:
  assumes "distinct xs" "a + l \<le> length xs"
  shows "card (set (take l (drop a xs))) = l"
proof -
  have "distinct (take l (drop a xs))" using assms(1) by simp
  then have "card (set (take l (drop a xs))) = length (take l (drop a xs))"
    by (rule distinct_card)
  also have "\<dots> = l" using assms(2) by simp
  finally show ?thesis .
qed

lemma assign_empty:
  "partitions = [] \<or> subscribers = [] \<Longrightarrow>
   assignPartitionsToSubscribers partitions subscribers = Some (partitions, subscribers, Map.empty)"
  by (auto simp: assignPartitionsToSubscribers_def)

lemma assigned_empty: "assignedSet Map.empty s = {}"
  by (simp add: assignedSet_def)

lemma assign_nonempty:
  assumes "partitions \<noteq> []" "subscribers \<noteq> []"
  shows "\<exists>m. assignPartitionsToSubscribers partitions subscribers =
            Some (sort_key sint partitions, sort subscribers, m) \<and>
          (\<forall>s. assignedSet m s =
             (\<Union>i\<in>{i. i < length subscribers \<and> sort subscribers ! i = s}.
                set (take (length partitions div length subscribers +
                           (if i < length partitions mod length subscribers then 1 else 0))
                      (drop (i * (length partitions div length subscribers) +
                             min i (length partitions mod length subscribers))
                        (sort_key sint partitions)))))"
proof -
  define n where "n = length partitions"
  define k where "k = length subscribers"
  define q where "q = n div k"
  define r where "r = n mod k"
  have k: "0 < k" using assms(2) by (simp add: k_def)
  have extra: "n - k * q = r"
    by (simp add: q_def r_def minus_mult_div_eq_mod)
  have inv: "0 + q * length (sort subscribers) + r = length (sort_key sint partitions)"
    by (simp add: q_def r_def n_def k_def)
  have rk: "r \<le> length (sort subscribers)"
    using k by (simp add: r_def k_def less_imp_le)
  obtain m where run: "assignLoop (sort_key sint partitions) q r 0 (sort subscribers) Map.empty = Some m"
    and spec: "\<And>s. assignedSet m s = assignedSet Map.empty s \<union>
        (\<Union>i\<in>{i. i < length (sort subscribers) \<and> sort subscribers ! i = s}.
            set (take (q + (if i < r then 1 else 0)) (drop (0 + i * q + min i r) (sort_key sint partitions))))"
    using assignLoop_spec [OF inv rk, of Map.empty] by blast
  have n: "n \<noteq> 0" using assms(1) by (simp add: n_def)
  have "assignPartitionsToSubscribers partitions subscribers =
            Some (sort_key sint partitions, sort subscribers, m)"
    using n k run extra
    by (simp add: assignPartitionsToSubscribers_def Let_def n_def [symmetric] k_def [symmetric] q_def [symmetric])
  moreover have "\<forall>s. assignedSet m s =
             (\<Union>i\<in>{i. i < k \<and> sort subscribers ! i = s}.
                set (take (q + (if i < r then 1 else 0)) (drop (i * q + min i r) (sort_key sint partitions))))"
    using spec by (simp add: assigned_empty k_def)
  ultimately show ?thesis
    unfolding q_def r_def n_def k_def by blast
qed

lemma index_set_distinct:
  "distinct ss \<Longrightarrow> j < length ss \<Longrightarrow> {i. i < length ss \<and> ss ! i = ss ! j} = {j}"
  by (auto simp: nth_eq_iff_index_eq)

lemma UN_by_key:
  "(\<Union>s\<in>set ss. \<Union>i\<in>{i. i < length ss \<and> ss ! i = s}. F i) = (\<Union>i\<in>{i. i < length ss}. F i)"
proof (intro set_eqI iffI)
  fix x
  assume "x \<in> (\<Union>s\<in>set ss. \<Union>i\<in>{i. i < length ss \<and> ss ! i = s}. F i)"
  then show "x \<in> (\<Union>i\<in>{i. i < length ss}. F i)" by auto
next
  fix x
  assume "x \<in> (\<Union>i\<in>{i. i < length ss}. F i)"
  then obtain i where i: "i < length ss" "x \<in> F i" by auto
  then have "ss ! i \<in> set ss" by simp
  with i show "x \<in> (\<Union>s\<in>set ss. \<Union>i\<in>{i. i < length ss \<and> ss ! i = s}. F i)" by blast
qed

lemma block_start_mono:
  "i \<le> j \<Longrightarrow> i * q + min i r \<le> j * q + min j (r::nat)"
proof -
  assume le: "i \<le> j"
  then have "i * q \<le> j * q" by simp
  moreover from le have "min i r \<le> min j r" by (simp add: min_def)
  ultimately show ?thesis by (rule add_mono)
qed

text \<open>
  Claim C1, as amended. The function is a function of its two arguments, so the assignment
  is deterministic. If either list is empty the returned map is empty. Otherwise, when the
  partitions are pairwise distinct and the subscribers are pairwise distinct, with
  \<open>sp\<close> the partitions sorted ascending, \<open>ss\<close> the subscribers sorted
  lexicographically, \<open>q = len(partitions) div len(subscribers)\<close> and
  \<open>r = len(partitions) mod len(subscribers)\<close>: no slice expression panics; the
  \<open>i\<close>-th subscriber of \<open>ss\<close> is assigned exactly the block of \<open>q\<close> consecutive
  partitions of \<open>sp\<close> that starts at \<open>i * q + min i r\<close>, one longer when \<open>i < r\<close>;
  nobody else is assigned anything; the assigned sets are pairwise disjoint and their union
  is the set of input partitions; and any two assigned sets differ in size by at most 1.
\<close>

theorem assignPartitionsToSubscribers_range_assignment:
  fixes partitions :: "int32 list" and subscribers :: "string list"
  defines "sp \<equiv> sort_key sint partitions"
    and "ss \<equiv> sort subscribers"
    and "q \<equiv> length partitions div length subscribers"
    and "r \<equiv> length partitions mod length subscribers"
  shows "(partitions = [] \<or> subscribers = [] \<longrightarrow>
            assignPartitionsToSubscribers partitions subscribers = Some (partitions, subscribers, Map.empty) \<and>
            (\<forall>s. assignedTo partitions subscribers s = {})) \<and>
         (partitions \<noteq> [] \<and> subscribers \<noteq> [] \<and> distinct partitions \<and> distinct subscribers \<longrightarrow>
            (\<exists>m. assignPartitionsToSubscribers partitions subscribers = Some (sp, ss, m) \<and>
               (\<forall>i<length ss.
                  assignedSet m (ss ! i) =
                    set (take (q + (if i < r then 1 else 0)) (drop (i * q + min i r) sp)) \<and>
                  card (assignedSet m (ss ! i)) = q + (if i < r then 1 else 0)) \<and>
               (\<forall>s. s \<notin> set subscribers \<longrightarrow> assignedSet m s = {}) \<and>
               (\<Union>s\<in>set subscribers. assignedSet m s) = set partitions \<and>
               (\<forall>s\<in>set subscribers. \<forall>t\<in>set subscribers.
                  (s \<noteq> t \<longrightarrow> assignedSet m s \<inter> assignedSet m t = {}) \<and>
                  card (assignedSet m s) \<le> card (assignedSet m t) + 1)))"
proof (intro conjI impI)
  assume e: "partitions = [] \<or> subscribers = []"
  show "assignPartitionsToSubscribers partitions subscribers = Some (partitions, subscribers, Map.empty)"
    using e by (rule assign_empty)
  then show "\<forall>s. assignedTo partitions subscribers s = {}"
    by (simp add: assignedTo_def assigned_empty)
next
  assume a: "partitions \<noteq> [] \<and> subscribers \<noteq> [] \<and> distinct partitions \<and> distinct subscribers"
  then have ne: "partitions \<noteq> []" "subscribers \<noteq> []" and dp: "distinct sp" and ds: "distinct ss"
    by (simp_all add: sp_def ss_def)
  have len: "length sp = length partitions" "length ss = length subscribers"
    by (simp_all add: sp_def ss_def)
  have sets: "set sp = set partitions" "set ss = set subscribers"
    by (simp_all add: sp_def ss_def)
  have k: "0 < length ss" using ne len by simp
  have n: "length sp = length ss * q + r"
    by (simp add: len q_def r_def)
  have rk: "r < length ss" using k by (simp add: r_def len)
  let ?B = "\<lambda>i. take (q + (if i < r then 1 else 0)) (drop (i * q + min i r) sp)"
  from assign_nonempty [OF ne]
  obtain m where run: "assignPartitionsToSubscribers partitions subscribers = Some (sp, ss, m)"
    and spec: "\<And>s. assignedSet m s = (\<Union>i\<in>{i. i < length ss \<and> ss ! i = s}. set (?B i))"
    unfolding sp_def ss_def q_def r_def len by auto
  have blk: "assignedSet m (ss ! i) = set (?B i)" if "i < length ss" for i
    unfolding spec using index_set_distinct [OF ds that] by simp
  have bound: "(i * q + min i r) + (q + (if i < r then 1 else 0)) \<le> length sp" if "i < length ss" for i
  proof -
    have "Suc i * q + min (Suc i) r \<le> length ss * q + r"
      using that by (intro block_start_le) simp
    then show ?thesis by (simp only: block_start_Suc n)
  qed
  have crd: "card (assignedSet m (ss ! i)) = q + (if i < r then 1 else 0)" if "i < length ss" for i
    unfolding blk [OF that] using dp bound [OF that] by (rule block_card)
  have none: "assignedSet m s = {}" if "s \<notin> set subscribers" for s
  proof -
    have "s \<notin> set ss" using that sets by simp
    then have e: "{i. i < length ss \<and> ss ! i = s} = {}"
      by (auto simp: in_set_conv_nth)
    show ?thesis by (simp only: spec e UN_empty)
  qed
  have un: "(\<Union>s\<in>set subscribers. assignedSet m s) = set partitions"
  proof -
    have "(\<Union>s\<in>set ss. assignedSet m s) = (\<Union>i\<in>{i. i < length ss}. set (?B i))"
      by (simp only: spec UN_by_key)
    also have "\<dots> = set (take (length ss * q + min (length ss) r) sp)"
      by (rule set_blocks_upto)
    also have "\<dots> = set sp"
      using rk n by (simp add: min_def)
    finally show ?thesis by (simp add: sets)
  qed
  have disj: "assignedSet m (ss ! i) \<inter> assignedSet m (ss ! j) = {}" if "i < j" "j < length ss" for i j
  proof -
    have i: "i < length ss" using that by simp
    have "Suc i * q + min (Suc i) r \<le> j * q + min j r"
      using that(1) by (intro block_start_mono) simp
    then have "(i * q + min i r) + (q + (if i < r then 1 else 0)) \<le> j * q + min j r"
      by (simp only: block_start_Suc)
    from blocks_disjoint [OF dp this] show ?thesis
      unfolding blk [OF i] blk [OF that(2)] .
  qed
  have pair: "(s \<noteq> t \<longrightarrow> assignedSet m s \<inter> assignedSet m t = {}) \<and> card (assignedSet m s) \<le> card (assignedSet m t) + 1"
    if "s \<in> set subscribers" "t \<in> set subscribers" for s t
  proof -
    from that sets have "s \<in> set ss" "t \<in> set ss" by simp_all
    then obtain i j where i: "i < length ss" "s = ss ! i" and j: "j < length ss" "t = ss ! j"
      unfolding in_set_conv_nth by blast
    have "card (assignedSet m s) \<le> card (assignedSet m t) + 1"
      unfolding i j crd [OF i(1)] crd [OF j(1)] by simp
    moreover have "assignedSet m s \<inter> assignedSet m t = {}" if "s \<noteq> t"
    proof -
      from that i j have "i < j \<or> j < i" by (cases i j rule: linorder_cases) auto
      then show ?thesis
        using disj [of i j] disj [of j i] i j by auto
    qed
    ultimately show ?thesis by simp
  qed
  show "\<exists>m. assignPartitionsToSubscribers partitions subscribers = Some (sp, ss, m) \<and>
               (\<forall>i<length ss.
                  assignedSet m (ss ! i) =
                    set (take (q + (if i < r then 1 else 0)) (drop (i * q + min i r) sp)) \<and>
                  card (assignedSet m (ss ! i)) = q + (if i < r then 1 else 0)) \<and>
               (\<forall>s. s \<notin> set subscribers \<longrightarrow> assignedSet m s = {}) \<and>
               (\<Union>s\<in>set subscribers. assignedSet m s) = set partitions \<and>
               (\<forall>s\<in>set subscribers. \<forall>t\<in>set subscribers.
                  (s \<noteq> t \<longrightarrow> assignedSet m s \<inter> assignedSet m t = {}) \<and>
                  card (assignedSet m s) \<le> card (assignedSet m t) + 1)"
    using run blk crd none un pair by blast
qed

text \<open>
  Scenario S2 of the specification: three partitions, subscribers A and B; A gets 0 and 1,
  B gets 2.
\<close>

theorem assignPartitionsToSubscribers_range_assignment_witness:
  "assignedTo [0, 1, 2] [''A'', ''B''] ''A'' = {0, 1} \<and>
   assignedTo [0, 1, 2] [''A'', ''B''] ''B'' = {2}"
proof -
  from assignPartitionsToSubscribers_range_assignment [of "[0, 1, 2]" "[''A'', ''B'']"]
  obtain m where run: "assignPartitionsToSubscribers [0, 1, 2] [''A'', ''B''] = Some ([0, 1, 2], [''A'', ''B''], m)"
    and blk: "\<forall>i<2. assignedSet m ([''A'', ''B''] ! i) =
                set (take (1 + (if i < 1 then 1 else 0)) (drop (i * 1 + min i 1) [0, 1, 2]))"
    by (auto simp: div_Suc mod_Suc)
  from blk have "assignedSet m ([''A'', ''B''] ! 0) = {0, 1}" "assignedSet m ([''A'', ''B''] ! 1) = {2}"
    by (auto simp: numeral_2_eq_2)
  with run show ?thesis by (simp add: assignedTo_def)
qed

text \<open>
  Claim C1 as stated ("for every input") fails when an input list repeats an element.
  With subscribers A, A, A, B and four partitions the three blocks of A are merged under one
  key, so A holds three partitions and B one; with partitions 0, 0 the two subscribers both
  hold partition 0, so the assigned sets are not disjoint.
\<close>

theorem assignPartitionsToSubscribers_duplicates_counterexample:
  "assignedTo [0, 1, 2, 3] [''A'', ''A'', ''A'', ''B''] ''A'' = {0, 1, 2} \<and>
   assignedTo [0, 1, 2, 3] [''A'', ''A'', ''A'', ''B''] ''B'' = {3} \<and>
   \<not> card (assignedTo [0, 1, 2, 3] [''A'', ''A'', ''A'', ''B''] ''A'')
        \<le> card (assignedTo [0, 1, 2, 3] [''A'', ''A'', ''A'', ''B''] ''B'') + 1 \<and>
   assignedTo [0, 0] [''A'', ''B''] ''A'' \<inter> assignedTo [0, 0] [''A'', ''B''] ''B'' \<noteq> {}"
proof -
  have A: "assignedTo [0, 1, 2, 3] [''A'', ''A'', ''A'', ''B''] ''A'' = {0, 1, 2}"
    by (auto simp add: assignedTo_def assignPartitionsToSubscribers_def Let_def slice_def
          assignedSet_def div_Suc mod_Suc)
  have B: "assignedTo [0, 1, 2, 3] [''A'', ''A'', ''A'', ''B''] ''B'' = {3}"
    by (auto simp add: assignedTo_def assignPartitionsToSubscribers_def Let_def slice_def
          assignedSet_def div_Suc mod_Suc)
  have C: "assignedTo [0, 0] [''A'', ''B''] ''A'' \<inter> assignedTo [0, 0] [''A'', ''B''] ''B'' = {0}"
    by (auto simp add: assignedTo_def assignPartitionsToSubscribers_def Let_def slice_def
          assignedSet_def div_Suc mod_Suc)
  have "card {0, 1, 2 :: int32} = 3" "card {3 :: int32} = 1" by simp_all
  with A B C show ?thesis by simp
qed

text \<open>
  Claim C10: the call changes its arguments. If either list is empty both slices are left as
  they were. If both are non-empty, the call returns normally and afterwards the caller's
  partitions slice is a permutation of what it was, ascending as signed 32-bit integers, and
  the caller's subscribers slice is a permutation of what it was, in lexicographic order.
  The function touches nothing but these two slices and the map it returns.
\<close>

theorem assignPartitionsToSubscribers_sorts_arguments:
  "(partitions = [] \<or> subscribers = [] \<longrightarrow>
      (\<exists>m. assignPartitionsToSubscribers partitions subscribers = Some (partitions, subscribers, m))) \<and>
   (partitions \<noteq> [] \<and> subscribers \<noteq> [] \<longrightarrow>
      (\<exists>partitions' subscribers' m.
         assignPartitionsToSubscribers partitions subscribers = Some (partitions', subscribers', m) \<and>
         sorted (map sint partitions') \<and> mset partitions' = mset partitions \<and>
         sorted subscribers' \<and> mset subscribers' = mset subscribers))"
proof (intro conjI impI)
  assume "partitions = [] \<or> subscribers = []"
  then show "\<exists>m. assignPartitionsToSubscribers partitions subscribers = Some (partitions, subscribers, m)"
    by (auto simp: assignPartitionsToSubscribers_def)
next
  assume "partitions \<noteq> [] \<and> subscribers \<noteq> []"
  then obtain m where "assignPartitionsToSubscribers partitions subscribers =
            Some (sort_key sint partitions, sort subscribers, m)"
    using assign_nonempty by blast
  moreover have "sorted (map sint (sort_key sint partitions))" by (rule sorted_sort_key)
  moreover have "sorted (sort subscribers)" by simp
  ultimately show "\<exists>partitions' subscribers' m.
         assignPartitionsToSubscribers partitions subscribers = Some (partitions', subscribers', m) \<and>
         sorted (map sint partitions') \<and> mset partitions' = mset partitions \<and>
         sorted subscribers' \<and> mset subscribers' = mset subscribers"
    by (intro exI [of _ "sort_key sint partitions"] exI [of _ "sort subscribers"] exI [of _ m]) simp
qed

theorem assignPartitionsToSubscribers_sorts_arguments_witness:
  "\<exists>partitions' subscribers' m.
     assignPartitionsToSubscribers [2, 0, 1] [''B'', ''A''] = Some (partitions', subscribers', m) \<and>
     sorted (map sint partitions') \<and> mset partitions' = mset [2, 0, 1] \<and>
     sorted subscribers' \<and> mset subscribers' = mset [''B'', ''A'']"
  using assignPartitionsToSubscribers_sorts_arguments [of "[2, 0, 1]" "[''B'', ''A'']"] by simp

section \<open>Properties of the exclusive consumer\<close>

lemma ecRun_snoc: "ecRun env (evs @ [ev]) = ecStep env (ecRun env evs) ev"
  by (simp add: ecRun_def)

lemma ecStep_finished:
  "location s = Returned \<or> location s = Panicked \<Longrightarrow> ecStep env s ev = s"
  by (auto simp: ecStep_def)

lemma foldl_ecStep_finished:
  "location s = Returned \<or> location s = Panicked \<Longrightarrow> foldl (ecStep env) s evs = s"
  by (induction evs) (simp_all add: ecStep_finished)






lemma waiting_steps:
  assumes "location s = WaitingInitialOffset" "\<forall>n. InitialOffset n \<notin> set evs"
  shows "foldl (ecStep env) s evs =
           (if Stop \<in> set evs
            then s\<lparr>location := Returned, trace := trace s @ [ClosePartitionOffsetManager, ReleaseClaim]\<rparr>
            else s)"
  using assms
proof (induction evs)
  case Nil
  then show ?case by simp
next
  case (Cons ev evs)
  show ?case
  proof (cases "ev = Stop")
    case True
    then have "ecStep env s ev = s\<lparr>location := Returned, trace := trace s @ [ClosePartitionOffsetManager, ReleaseClaim]\<rparr>"
      using Cons.prems by (simp add: ecStep_def)
    then show ?thesis
      using True by (simp add: foldl_ecStep_finished)
  next
    case False
    then have "ecStep env s ev = s"
      using Cons.prems by (cases ev) (auto simp: ecStep_def)
    then show ?thesis
      using False Cons by auto
  qed
qed

lemma submitted_append: "submitted (xs @ ys) = submitted xs @ submitted ys"
  by (simp add: submitted_def)

lemma submitted_simps:
  "submitted [] = []"
  "submitted (SubmitOffset n # tr) = n # submitted tr"
  "submitted (ClaimPartition # tr) = submitted tr"
  "submitted (ManagePartition # tr) = submitted tr"
  "submitted (ConsumePartition n # tr) = submitted tr"
  "submitted (NotifyFirstMessageFetched # tr) = submitted tr"
  "submitted (Offer msg # tr) = submitted tr"
  "submitted (ClosePartitionConsumer # tr) = submitted tr"
  "submitted (ClosePartitionOffsetManager # tr) = submitted tr"
  "submitted (ReleaseClaim # tr) = submitted tr"
  by (simp_all add: submitted_def)

lemma new_submit:
  assumes "n \<in> set (submitted (trace (ecStep env s ev)))" "n \<notin> set (submitted (trace s))"
  shows "(location s = WaitingInitialOffset \<and> ev = InitialOffset (OffsetNewest env) \<and>
            consumePartition env (OffsetNewest env) = Some n) \<or>
         (\<exists>msg a. location s = Offering msg \<and> ev = Ack a \<and> n = Offset msg + 1)"
  using assms
  by (cases "location s"; cases ev)
     (auto simp: ecStep_def ecDone_def ecReturn_def submitted_append submitted_simps
           split: option.splits if_splits)

text \<open>
  Claim C3. While a message \<open>msg\<close> is on offer, an ack makes the consumer set
  \<open>lastSubmittedOffset\<close> to \<open>Offset msg + 1\<close> (in 64-bit arithmetic), submit that offset and
  go back to fetching. No other event in the offering state, and no event in the fetching
  state, submits an offset or changes \<open>lastSubmittedOffset\<close>, and the offering state is
  entered only with a fetched message. Hence, in every run, every offset ever submitted is
  either the one that primes the offset storage when the initial offset is
  \<^verbatim>\<open>OffsetNewest\<close>, or \<open>Offset msg + 1\<close> for a message \<open>msg\<close> that was on offer when an ack
  was received earlier in the run: the offset after a message is never submitted before
  that message has been acknowledged.
\<close>

theorem exclusiveConsumer_submits_on_ack:
  "(location s = Offering msg \<longrightarrow>
      ecStep env s (Ack a) =
        s\<lparr>location := Fetching, lastSubmittedOffset := Offset msg + 1,
          trace := trace s @ [SubmitOffset (Offset msg + 1)]\<rparr>) \<and>
   (location s = Offering msg \<and> (\<forall>a. ev \<noteq> Ack a) \<longrightarrow>
      submitted (trace (ecStep env s ev)) = submitted (trace s) \<and>
      lastSubmittedOffset (ecStep env s ev) = lastSubmittedOffset s) \<and>
   (location s = Fetching \<longrightarrow>
      submitted (trace (ecStep env s ev)) = submitted (trace s) \<and>
      lastSubmittedOffset (ecStep env s ev) = lastSubmittedOffset s \<and>
      (\<forall>m. location (ecStep env s ev) = Offering m \<longrightarrow> ev = FetchedMessage m)) \<and>
   (\<forall>n \<in> set (submitted (trace (ecRun env evs))).
      (\<exists>pre post. evs = pre @ InitialOffset (OffsetNewest env) # post \<and>
          location (ecRun env pre) = WaitingInitialOffset \<and>
          consumePartition env (OffsetNewest env) = Some n) \<or>
      (\<exists>pre a post msg. evs = pre @ Ack a # post \<and>
          location (ecRun env pre) = Offering msg \<and> n = Offset msg + 1))"
proof (intro conjI impI)
  assume "location s = Offering msg"
  then show "ecStep env s (Ack a) =
        s\<lparr>location := Fetching, lastSubmittedOffset := Offset msg + 1,
          trace := trace s @ [SubmitOffset (Offset msg + 1)]\<rparr>"
    by (simp add: ecStep_def)
next
  assume a: "location s = Offering msg \<and> (\<forall>a. ev \<noteq> Ack a)"
  then show "submitted (trace (ecStep env s ev)) = submitted (trace s)"
    by (cases ev) (auto simp: ecStep_def ecDone_def ecReturn_def submitted_append submitted_simps)
  from a show "lastSubmittedOffset (ecStep env s ev) = lastSubmittedOffset s"
    by (cases ev) (auto simp: ecStep_def ecDone_def ecReturn_def)
next
  assume f: "location s = Fetching"
  then show "submitted (trace (ecStep env s ev)) = submitted (trace s)"
    by (cases ev) (auto simp: ecStep_def ecDone_def ecReturn_def submitted_append submitted_simps)
  from f show "lastSubmittedOffset (ecStep env s ev) = lastSubmittedOffset s"
    by (cases ev) (auto simp: ecStep_def ecDone_def ecReturn_def)
  from f show "\<forall>m. location (ecStep env s ev) = Offering m \<longrightarrow> ev = FetchedMessage m"
    by (cases ev) (auto simp: ecStep_def ecDone_def ecReturn_def)
next
  show "\<forall>n \<in> set (submitted (trace (ecRun env evs))).
      (\<exists>pre post. evs = pre @ InitialOffset (OffsetNewest env) # post \<and>
          location (ecRun env pre) = WaitingInitialOffset \<and>
          consumePartition env (OffsetNewest env) = Some n) \<or>
      (\<exists>pre a post msg. evs = pre @ Ack a # post \<and>
          location (ecRun env pre) = Offering msg \<and> n = Offset msg + 1)"
  proof (induction evs rule: rev_induct)
    case Nil
    then show ?case by (simp add: ecRun_def ecStart_def submitted_simps)
  next
    case (snoc ev evs)
    show ?case
    proof
      fix n
      assume n: "n \<in> set (submitted (trace (ecRun env (evs @ [ev]))))"
      show "(\<exists>pre post. evs @ [ev] = pre @ InitialOffset (OffsetNewest env) # post \<and>
               location (ecRun env pre) = WaitingInitialOffset \<and>
               consumePartition env (OffsetNewest env) = Some n) \<or>
            (\<exists>pre a post msg. evs @ [ev] = pre @ Ack a # post \<and>
               location (ecRun env pre) = Offering msg \<and> n = Offset msg + 1)"
      proof (cases "n \<in> set (submitted (trace (ecRun env evs)))")
        case True
        with snoc.IH consider
          (init) pre post where "evs = pre @ InitialOffset (OffsetNewest env) # post"
            "location (ecRun env pre) = WaitingInitialOffset"
            "consumePartition env (OffsetNewest env) = Some n"
        | (ack) pre a post msg where "evs = pre @ Ack a # post"
            "location (ecRun env pre) = Offering msg" "n = Offset msg + 1"
          by blast
        then show ?thesis
        proof cases
          case init
          then have "evs @ [ev] = pre @ InitialOffset (OffsetNewest env) # (post @ [ev])" by simp
          with init show ?thesis by blast
        next
          case ack
          then have "evs @ [ev] = pre @ Ack a # (post @ [ev])" by simp
          with ack show ?thesis by blast
        qed
      next
        case False
        from n have "n \<in> set (submitted (trace (ecStep env (ecRun env evs) ev)))"
          by (simp add: ecRun_snoc)
        from new_submit [OF this False] consider
          (init) "location (ecRun env evs) = WaitingInitialOffset" "ev = InitialOffset (OffsetNewest env)"
            "consumePartition env (OffsetNewest env) = Some n"
        | (ack) msg a where "location (ecRun env evs) = Offering msg" "ev = Ack a" "n = Offset msg + 1"
          by blast
        then show ?thesis
        proof cases
          case init
          then have "evs @ [ev] = evs @ InitialOffset (OffsetNewest env) # []" by simp
          with init show ?thesis by blast
        next
          case ack
          then have "evs @ [ev] = evs @ Ack a # []" by simp
          with ack show ?thesis by blast
        qed
      qed
    qed
  qed
qed

theorem exclusiveConsumer_submits_on_ack_witness:
  "ecStep \<lparr>OffsetNewest = - 1, managePartitionFails = False, consumePartition = Some,
           firstMessageFetchedCh = False\<rparr>
     \<lparr>location = Offering \<lparr>Offset = 7\<rparr>, lastSubmittedOffset = 0, lastCommittedOffset = 0,
      firstMessageFetched = False, trace = [ClaimPartition, ManagePartition, ConsumePartition 7]\<rparr>
     (Ack \<lparr>Offset = 3\<rparr>) =
   \<lparr>location = Fetching, lastSubmittedOffset = 8, lastCommittedOffset = 0,
    firstMessageFetched = False,
    trace = [ClaimPartition, ManagePartition, ConsumePartition 7, SubmitOffset 8]\<rparr>"
  using exclusiveConsumer_submits_on_ack [of "\<lparr>location = Offering \<lparr>Offset = 7\<rparr>, lastSubmittedOffset = 0, lastCommittedOffset = 0,
      firstMessageFetched = False, trace = [ClaimPartition, ManagePartition, ConsumePartition 7]\<rparr>"
      "\<lparr>Offset = 7\<rparr>" "\<lparr>OffsetNewest = - 1, managePartitionFails = False, consumePartition = Some,
           firstMessageFetchedCh = False\<rparr>" "\<lparr>Offset = 3\<rparr>" Stop "[]"]
  by simp




lemma ecRun_append: "ecRun env (xs @ ys) = foldl (ecStep env) (ecRun env xs) ys"
  by (simp add: ecRun_def)





text \<open>
  Claim C9. If \<^verbatim>\<open>ManagePartition\<close> succeeded, no initial offset ever arrives and the stop
  signal is taken, \<^verbatim>\<open>run\<close> returns having only closed the offset manager and released the
  claim: it has submitted no offset and has not called \<^verbatim>\<open>ConsumePartition\<close>, and at no
  point of the run was it in the fetching, offering or draining state.
\<close>

theorem exclusiveConsumer_stop_before_initial_offset:
  assumes "\<forall>n. InitialOffset n \<notin> set evs" and "Stop \<in> set evs" and "\<not> managePartitionFails env"
  shows "ecRun env evs =
           \<lparr>location = Returned, lastSubmittedOffset = 0, lastCommittedOffset = 0,
            firstMessageFetched = False,
            trace = [ClaimPartition, ManagePartition, ClosePartitionOffsetManager, ReleaseClaim]\<rparr> \<and>
         (\<forall>k. location (ecRun env (take k evs)) = WaitingInitialOffset \<or>
              location (ecRun env (take k evs)) = Returned)"
proof
  have st: "location (ecStart env) = WaitingInitialOffset"
    using assms(3) by (simp add: ecStart_def)
  show "ecRun env evs =
           \<lparr>location = Returned, lastSubmittedOffset = 0, lastCommittedOffset = 0,
            firstMessageFetched = False,
            trace = [ClaimPartition, ManagePartition, ClosePartitionOffsetManager, ReleaseClaim]\<rparr>"
    unfolding ecRun_def waiting_steps [OF st assms(1)]
    using assms(2,3) by (simp add: ecStart_def)
  show "\<forall>k. location (ecRun env (take k evs)) = WaitingInitialOffset \<or>
              location (ecRun env (take k evs)) = Returned"
  proof
    fix k
    have "\<forall>n. InitialOffset n \<notin> set (take k evs)"
      using assms(1) by (meson in_set_takeD)
    from waiting_steps [OF st this]
    show "location (ecRun env (take k evs)) = WaitingInitialOffset \<or>
              location (ecRun env (take k evs)) = Returned"
      unfolding ecRun_def using st by (simp split: if_splits)
  qed
qed

theorem exclusiveConsumer_stop_before_initial_offset_witness:
  "ecRun \<lparr>OffsetNewest = - 1, managePartitionFails = False, consumePartition = Some,
          firstMessageFetchedCh = False\<rparr> [CommittedOffset 4, Stop, FetchedMessage \<lparr>Offset = 4\<rparr>] =
     \<lparr>location = Returned, lastSubmittedOffset = 0, lastCommittedOffset = 0,
      firstMessageFetched = False,
      trace = [ClaimPartition, ManagePartition, ClosePartitionOffsetManager, ReleaseClaim]\<rparr>"
  using exclusiveConsumer_stop_before_initial_offset [of "[CommittedOffset 4, Stop, FetchedMessage \<lparr>Offset = 4\<rparr>]"
    "\<lparr>OffsetNewest = - 1, managePartitionFails = False, consumePartition = Some,
          firstMessageFetchedCh = False\<rparr>"]
  by simp

section \<open>Properties of the group consumer\<close>

lemma oneRebalance_init: "oneRebalance mpInit"
  by (simp add: oneRebalance_def mpInit_def)

lemma oneRebalance_step: "oneRebalance s \<Longrightarrow> oneRebalance (mpStep cfg s ev)"
  by (cases ev)
     (auto simp: oneRebalance_def mpStep_def mpRebalanceIfDue_def Let_def
           split: list.splits option.splits retryChannel.splits if_splits)

lemma oneRebalance_foldl: "oneRebalance s \<Longrightarrow> oneRebalance (foldl (mpStep cfg) s evs)"
  by (induction evs arbitrary: s) (simp_all add: oneRebalance_step)

lemma oneRebalance_run: "oneRebalance (managePartitions cfg evs)"
  unfolding managePartitions_def by (rule oneRebalance_foldl) (rule oneRebalance_init)

text \<open>
  Claim C5. In every state the loop and its rebalance goroutines can reach, the number of
  rebalances that are running plus the number of results waiting in \<^verbatim>\<open>rebalanceResultCh\<close>
  is at most one, and it is zero whenever \<^verbatim>\<open>canRebalance\<close> is true: no two rebalances of
  the group are ever in flight together. A step starts a rebalance only when, after its
  \<^verbatim>\<open>select\<close> case, \<^verbatim>\<open>shouldRebalance\<close> and \<^verbatim>\<open>canRebalance\<close> are both true; it then starts
  exactly one, on the snapshot of the topic consumers and the last known subscriptions,
  and leaves both flags false. \<^verbatim>\<open>canRebalance\<close> goes from false to true only in a step
  that receives a result from \<^verbatim>\<open>rebalanceResultCh\<close>.
\<close>

theorem managePartitions_one_rebalance_in_flight:
  "rebalancing (managePartitions cfg evs) + length (rebalanceResultCh (managePartitions cfg evs)) \<le> 1 \<and>
   (canRebalance (managePartitions cfg evs) \<longrightarrow>
      rebalancing (managePartitions cfg evs) = 0 \<and> rebalanceResultCh (managePartitions cfg evs) = []) \<and>
   (rebalances (mpStep cfg s ev) \<noteq> rebalances s \<longrightarrow>
      shouldRebalance (fst (mpSelect cfg s ev)) \<and> canRebalance (fst (mpSelect cfg s ev)) \<and>
      \<not> shouldRebalance (mpStep cfg s ev) \<and> \<not> canRebalance (mpStep cfg s ev) \<and>
      rebalancing (mpStep cfg s ev) = rebalancing s + 1 \<and>
      rebalances (mpStep cfg s ev) = rebalances s @ [(topicConsumers s, memberSubscriptions (fst (mpSelect cfg s ev)))]) \<and>
   (\<not> canRebalance s \<and> canRebalance (mpStep cfg s ev) \<longrightarrow>
      ev = RebalanceResult \<and> rebalanceResultCh s \<noteq> [])"
proof (intro conjI impI)
  have inv: "oneRebalance (managePartitions cfg evs)" by (rule oneRebalance_run)
  then show "rebalancing (managePartitions cfg evs) + length (rebalanceResultCh (managePartitions cfg evs)) \<le> 1"
    by (simp add: oneRebalance_def split: if_splits)
  assume "canRebalance (managePartitions cfg evs)"
  with inv show "rebalancing (managePartitions cfg evs) = 0"
    and "rebalanceResultCh (managePartitions cfg evs) = []"
    by (simp_all add: oneRebalance_def)
next
  assume a: "rebalances (mpStep cfg s ev) \<noteq> rebalances s"
  then show "shouldRebalance (fst (mpSelect cfg s ev))"
    by (cases ev) (auto simp: mpStep_def mpRebalanceIfDue_def Let_def
           split: list.splits option.splits retryChannel.splits if_splits)
  from a show "canRebalance (fst (mpSelect cfg s ev))"
    by (cases ev) (auto simp: mpStep_def mpRebalanceIfDue_def Let_def
           split: list.splits option.splits retryChannel.splits if_splits)
  from a show "\<not> shouldRebalance (mpStep cfg s ev)"
    by (cases ev) (auto simp: mpStep_def mpRebalanceIfDue_def Let_def
           split: list.splits option.splits retryChannel.splits if_splits)
  from a show "\<not> canRebalance (mpStep cfg s ev)"
    by (cases ev) (auto simp: mpStep_def mpRebalanceIfDue_def Let_def
           split: list.splits option.splits retryChannel.splits if_splits)
  from a show "rebalancing (mpStep cfg s ev) = rebalancing s + 1"
    by (cases ev) (auto simp: mpStep_def mpRebalanceIfDue_def Let_def
           split: list.splits option.splits retryChannel.splits if_splits)
  from a show "rebalances (mpStep cfg s ev) =
      rebalances s @ [(topicConsumers s, memberSubscriptions (fst (mpSelect cfg s ev)))]"
    by (cases ev) (auto simp: mpStep_def mpRebalanceIfDue_def Let_def
           split: list.splits option.splits retryChannel.splits if_splits)
next
  assume a: "\<not> canRebalance s \<and> canRebalance (mpStep cfg s ev)"
  then show "ev = RebalanceResult"
    by (cases ev) (auto simp: mpStep_def mpRebalanceIfDue_def Let_def
           split: list.splits option.splits retryChannel.splits if_splits)
  from a show "rebalanceResultCh s \<noteq> []"
    by (cases ev) (auto simp: mpStep_def mpRebalanceIfDue_def Let_def
           split: list.splits option.splits retryChannel.splits if_splits)
qed

theorem managePartitions_one_rebalance_in_flight_witness:
  "rebalancing
     (mpStep \<lparr>ClientID = ''A'', ChannelBufferSize = 1, LongPollingTimeout = 3000000000,
               BackOffTimeout = 500000000\<rparr> mpInit (MembershipChange [])) = 1 \<and>
   \<not> canRebalance
     (mpStep \<lparr>ClientID = ''A'', ChannelBufferSize = 1, LongPollingTimeout = 3000000000,
               BackOffTimeout = 500000000\<rparr> mpInit (MembershipChange [])) \<and>
   rebalancing
     (managePartitions \<lparr>ClientID = ''A'', ChannelBufferSize = 1, LongPollingTimeout = 3000000000,
                         BackOffTimeout = 500000000\<rparr>
        [MembershipChange [], MembershipChange [], RebalanceFinished None]) \<le> 1"
proof -
  let ?cfg = "\<lparr>ClientID = ''A'', ChannelBufferSize = 1, LongPollingTimeout = 3000000000,
               BackOffTimeout = 500000000\<rparr>"
  have "rebalances (mpStep ?cfg mpInit (MembershipChange [])) \<noteq> rebalances mpInit"
    by (simp add: mpStep_def mpInit_def mpRebalanceIfDue_def)
  with managePartitions_one_rebalance_in_flight
         [of ?cfg "[MembershipChange [], MembershipChange [], RebalanceFinished None]" mpInit
             "MembershipChange []"]
  show ?thesis by (simp add: mpInit_def)
qed

lemma retryArmed_init: "retryArmed cfg mpInit"
  by (simp add: retryArmed_def oneRebalance_def mpInit_def)

lemma retryArmed_step: "retryArmed cfg s \<Longrightarrow> retryArmed cfg (mpStep cfg s ev)"
  by (cases ev)
     (auto simp: retryArmed_def oneRebalance_def mpStep_def mpRebalanceIfDue_def Let_def
           split: list.splits option.splits retryChannel.splits if_splits)

lemma retryArmed_foldl: "retryArmed cfg s \<Longrightarrow> retryArmed cfg (foldl (mpStep cfg) s evs)"
  by (induction evs arbitrary: s) (simp_all add: retryArmed_step)

lemma retryArmed_run: "retryArmed cfg (managePartitions cfg evs)"
  unfolding managePartitions_def by (rule retryArmed_foldl) (rule retryArmed_init)

lemma managePartitions_snoc:
  "managePartitions cfg (evs @ [ev]) = mpStep cfg (managePartitions cfg evs) ev"
  by (simp add: managePartitions_def)

lemma retry_tick_spawns:
  assumes "looping s" "nilOrRetryCh s = RetryAfter d" "canRebalance s"
  shows "mpStep cfg s RetryTick =
          s\<lparr>nilOrRetryCh := RetrySpent, rebalancing := rebalancing s + 1,
            rebalances := rebalances s @ [(topicConsumers s, memberSubscriptions s)],
            shouldRebalance := False, canRebalance := False\<rparr>"
  using assms by (simp add: mpStep_def mpRebalanceIfDue_def)

lemma run_retry:
  assumes "looping (managePartitions cfg evs)" "nilOrRetryCh (managePartitions cfg evs) = RetryAfter d"
  shows "d = BackOffTimeout cfg \<and>
         managePartitions cfg (evs @ [RetryTick]) =
           (managePartitions cfg evs)\<lparr>nilOrRetryCh := RetrySpent,
              rebalancing := rebalancing (managePartitions cfg evs) + 1,
              rebalances := rebalances (managePartitions cfg evs) @
                 [(topicConsumers (managePartitions cfg evs), memberSubscriptions (managePartitions cfg evs))],
              shouldRebalance := False, canRebalance := False\<rparr>"
proof -
  have "retryArmed cfg (managePartitions cfg evs)" by (rule retryArmed_run)
  with assms(2) have c: "canRebalance (managePartitions cfg evs)" and d: "d = BackOffTimeout cfg"
    by (simp_all add: retryArmed_def)
  from retry_tick_spawns [OF assms c, of cfg] d show ?thesis
    by (simp only: managePartitions_snoc)
qed

lemma keys_delete: "fst ` set (AList.delete k al) = fst ` set al - {k}"
proof -
  have "set (map fst (AList.delete k al)) = set (removeAll k (map fst al))"
    by (simp only: delete_keys)
  then show ?thesis by simp
qed

lemma keys_update: "fst ` set (AList.update k v al) = insert k (fst ` set al)"
  by (simp add: dom_update)

lemma isAssigned_key: "isAssigned a p \<Longrightarrow> p \<in> fst ` set a"
  by (auto simp: isAssigned_def dest: map_of_SomeD intro: rev_image_eqI)

lemma keys_stopUnassigned:
  "fst ` set (exclusiveConsumers (stopUnassigned a e tg)) =
     fst ` set (exclusiveConsumers tg) - (if isAssigned a (fst e) then {} else {fst e})"
  by (simp add: stopUnassigned_def keys_delete)

lemma keys_fold_stopUnassigned:
  "fst ` set (exclusiveConsumers (fold (stopUnassigned a) es tg)) =
     fst ` set (exclusiveConsumers tg) - {p \<in> fst ` set es. \<not> isAssigned a p}"
proof (induction es arbitrary: tg)
  case Nil
  then show ?case by simp
next
  case (Cons e es)
  show ?case
    by (simp only: fold_simps Cons.IH keys_stopUnassigned) auto
qed

lemma keys_startAssigned:
  "fst ` set (exclusiveConsumers (startAssigned e tg)) = insert (fst e) (fst ` set (exclusiveConsumers tg))"
proof (cases "map_of (exclusiveConsumers tg) (fst e) = None")
  case True
  then show ?thesis by (simp add: startAssigned_def keys_update)
next
  case False
  then have "fst e \<in> fst ` set (exclusiveConsumers tg)"
    by (simp add: map_of_eq_None_iff)
  with False show ?thesis by (auto simp: startAssigned_def)
qed

lemma keys_fold_startAssigned:
  "fst ` set (exclusiveConsumers (fold startAssigned a tg)) =
     fst ` set (exclusiveConsumers tg) \<union> fst ` set a"
proof (induction a arbitrary: tg)
  case Nil
  then show ?case by simp
next
  case (Cons e a)
  show ?case
    by (simp only: fold_simps Cons.IH keys_startAssigned) auto
qed

lemma exclusiveConsumers_respawn:
  "exclusiveConsumers (respawnMultiplexer tg) = exclusiveConsumers tg"
  by (simp add: respawnMultiplexer_def)

lemma keys_rewireMultiplexer:
  "fst ` set (exclusiveConsumers (rewireMultiplexer tg assigned)) = fst ` set assigned"
  unfolding rewireMultiplexer_def rewireLoops_def exclusiveConsumers_respawn
    keys_fold_startAssigned keys_fold_stopUnassigned
  using isAssigned_key [of assigned] by auto

lemma muxHasInputs_stop: "muxHasInputs tg \<Longrightarrow> muxHasInputs (stopUnassigned a e tg)"
  by (simp add: muxHasInputs_def stopUnassigned_def)

lemma muxHasInputs_fold_stop: "muxHasInputs tg \<Longrightarrow> muxHasInputs (fold (stopUnassigned a) es tg)"
  by (induction es arbitrary: tg) (simp_all add: muxHasInputs_stop)

lemma muxHasInputs_start: "muxHasInputs tg \<Longrightarrow> muxHasInputs (startAssigned e tg)"
  by (simp add: muxHasInputs_def startAssigned_def)

lemma muxHasInputs_fold_start: "muxHasInputs tg \<Longrightarrow> muxHasInputs (fold startAssigned a tg)"
  by (induction a arbitrary: tg) (simp_all add: muxHasInputs_start)

lemma gearWired_respawn: "muxHasInputs tg \<Longrightarrow> gearWired (respawnMultiplexer tg)"
  by (auto simp: muxHasInputs_def gearWired_def respawnMultiplexer_def)

lemma gearWired_rewire: "muxHasInputs tg \<Longrightarrow> gearWired (rewireMultiplexer tg assigned)"
  unfolding rewireMultiplexer_def rewireLoops_def
  by (intro gearWired_respawn muxHasInputs_fold_start muxHasInputs_fold_stop)

lemma gearWired_muxHasInputs: "gearWired tg \<Longrightarrow> muxHasInputs tg"
  by (simp add: gearWired_def muxHasInputs_def)

lemma muxHasInputs_new: "muxHasInputs (newTopicGear tc)"
  by (simp add: muxHasInputs_def newTopicGear_def)

lemma set_update_subset: "set (AList.update k v al) \<subseteq> insert (k, v) (set al)"
  by (induction al) auto

lemma set_delete_subset: "set (AList.delete k al) \<subseteq> set al"
  by (auto simp: AList.delete_eq)

lemma fold_dropIdleGear_subset: "set (fold dropIdleGear es gears) \<subseteq> set gears"
proof (induction es arbitrary: gears)
  case Nil
  then show ?case by simp
next
  case (Cons e es)
  have "set (fold dropIdleGear es (dropIdleGear e gears)) \<subseteq> set (dropIdleGear e gears)"
    by (rule Cons.IH)
  also have "\<dots> \<subseteq> set gears"
    using set_delete_subset [of "fst e" gears] by (simp add: dropIdleGear_def)
  finally show ?case by simp
qed

lemma fold_dropIdleGear_removed:
  "e \<in> set es \<Longrightarrow> multiplexer (snd e) = None \<Longrightarrow> fst e \<notin> fst ` set (fold dropIdleGear es gears)"
proof (induction es arbitrary: gears)
  case Nil
  then show ?case by simp
next
  case (Cons x es)
  show ?case
  proof (cases "e = x")
    case True
    have "fst e \<notin> fst ` set (dropIdleGear x gears)"
      using True Cons.prems(2) by (simp add: dropIdleGear_def delete_notin_dom)
    moreover have "set (fold dropIdleGear es (dropIdleGear x gears)) \<subseteq> set (dropIdleGear x gears)"
      by (rule fold_dropIdleGear_subset)
    ultimately show ?thesis by auto
  next
    case False
    with Cons.prems have "e \<in> set es" by simp
    from Cons.IH [OF this Cons.prems(2)] show ?thesis by simp
  qed
qed

lemma dropped_have_multiplexer:
  assumes "e \<in> set (fold dropIdleGear gears gears)"
  shows "e \<in> set gears \<and> multiplexer (snd e) \<noteq> None"
proof
  show in_gears: "e \<in> set gears"
    using assms fold_dropIdleGear_subset by blast
  show "multiplexer (snd e) \<noteq> None"
  proof
    assume "multiplexer (snd e) = None"
    from fold_dropIdleGear_removed [OF in_gears this, of gears]
    show False using assms by (simp add: rev_image_eqI)
  qed
qed

lemma addTopicGear_wired:
  assumes "\<forall>e\<in>set gears. gearWired (snd e)"
  shows "\<forall>e\<in>set (addTopicGear tcs entry gears). gearWired (snd e)"
proof (cases "map_of tcs (fst entry)")
  case None
  then show ?thesis using assms by (simp add: addTopicGear_def)
next
  case (Some tc)
  show ?thesis
  proof (cases "map_of gears (fst entry)")
    case None
    have "gearWired (rewireMultiplexer (newTopicGear tc) (snd entry))"
      by (rule gearWired_rewire) (rule muxHasInputs_new)
    then show ?thesis
      using assms Some None
        set_update_subset [of "fst entry" "rewireMultiplexer (newTopicGear tc) (snd entry)" gears]
      by (auto simp: addTopicGear_def)
  next
    case (Some tg)
    then show ?thesis using assms \<open>map_of tcs (fst entry) = Some tc\<close> by (simp add: addTopicGear_def)
  qed
qed

lemma fold_addTopicGear_wired:
  "\<forall>e\<in>set gears. gearWired (snd e) \<Longrightarrow> \<forall>e\<in>set (fold (addTopicGear tcs) ap gears). gearWired (snd e)"
proof (induction ap arbitrary: gears)
  case Nil
  then show ?case by simp
next
  case (Cons a ap)
  from addTopicGear_wired [OF Cons.prems] have "\<forall>e\<in>set (addTopicGear tcs a gears). gearWired (snd e)" .
  from Cons.IH [OF this] show ?case by simp
qed

lemma rebalance_multiplexers:
  "\<forall>e\<in>set (fst (rebalance gears tcs (Inr ap))). multiplexer (snd e) \<noteq> None"
  by (auto simp: rebalance_def Let_def dest: dropped_have_multiplexer)

lemma rebalance_busy:
  assumes "gearsBusy gears"
  shows "gearsBusy (fst (rebalance gears tcs resolved))"
proof (cases resolved)
  case (Inl err)
  then show ?thesis using assms by (simp add: rebalance_def)
next
  case (Inr ap)
  let ?rewired = "map (\<lambda>(topic, tg). (topic, rewireMultiplexer tg (assignedFor ap topic))) gears"
  let ?added = "fold (addTopicGear tcs) ap ?rewired"
  have "\<forall>e\<in>set gears. muxHasInputs (snd e)"
    using assms by (simp add: gearsBusy_def muxHasInputs_def)
  then have "\<forall>e\<in>set ?rewired. gearWired (snd e)"
    by (fastforce intro: gearWired_rewire)
  then have w: "\<forall>e\<in>set ?added. gearWired (snd e)"
    by (rule fold_addTopicGear_wired)
  have res: "fst (rebalance gears tcs resolved) = fold dropIdleGear ?added ?added"
    using Inr by (simp add: rebalance_def Let_def)
  show ?thesis
    unfolding gearsBusy_def res
  proof
    fix e
    assume "e \<in> set (fold dropIdleGear ?added ?added)"
    from dropped_have_multiplexer [OF this] w
    show "multiplexer (snd e) \<noteq> None \<and> exclusiveConsumers (snd e) \<noteq> []"
      by (auto simp: gearWired_def)
  qed
qed

lemma topicGearsAfter_busy: "gearsBusy (topicGearsAfter calls)"
proof (induction calls rule: rev_induct)
  case Nil
  then show ?case by (simp add: topicGearsAfter_def gearsBusy_def)
next
  case (snoc call calls)
  have "topicGearsAfter (calls @ [call]) = fst (rebalance (topicGearsAfter calls) (fst call) (snd call))"
    by (simp add: topicGearsAfter_def)
  with rebalance_busy [OF snoc.IH] show ?case by simp
qed

text \<open>
  Calls that run alone. After such a call of \<^verbatim>\<open>rewireMultiplexer(tg, assigned)\<close> the keys
  of \<^verbatim>\<open>tg.exclusiveConsumers\<close> are exactly the keys of \<^verbatim>\<open>assigned\<close>; and if the gear had
  no multiplexer without an exclusive consumer before the call (as a new gear, which has
  no multiplexer, and every gear left by an earlier such call), then after it the
  multiplexer is present if and only if there is an exclusive consumer. After a rebalance
  that completes, all of whose calls ran alone, no gear without a multiplexer is left in
  \<^verbatim>\<open>gc.topicGears\<close>; and after any sequence of such rebalances from the empty
  \<^verbatim>\<open>gc.topicGears\<close>, every gear left has a multiplexer and at least one exclusive
  consumer.
\<close>

lemma rewireMultiplexer_alone:
  "fst ` set (exclusiveConsumers (rewireMultiplexer tg assigned)) = fst ` set assigned \<and>
   ((multiplexer tg \<noteq> None \<longrightarrow> exclusiveConsumers tg \<noteq> []) \<longrightarrow>
      (multiplexer (rewireMultiplexer tg assigned) \<noteq> None) =
      (exclusiveConsumers (rewireMultiplexer tg assigned) \<noteq> [])) \<and>
   multiplexer (newTopicGear tc) = None \<and>
   (\<forall>e\<in>set (fst (rebalance gears tcs (Inr assignedPartitions))). multiplexer (snd e) \<noteq> None) \<and>
   (\<forall>e\<in>set (topicGearsAfter calls).
      multiplexer (snd e) \<noteq> None \<and> exclusiveConsumers (snd e) \<noteq> [])"
proof (intro conjI impI)
  show "fst ` set (exclusiveConsumers (rewireMultiplexer tg assigned)) = fst ` set assigned"
    by (rule keys_rewireMultiplexer)
  show "multiplexer (newTopicGear tc) = None"
    by (simp add: newTopicGear_def)
  show "\<forall>e\<in>set (fst (rebalance gears tcs (Inr assignedPartitions))). multiplexer (snd e) \<noteq> None"
    by (rule rebalance_multiplexers)
  show "\<forall>e\<in>set (topicGearsAfter calls).
      multiplexer (snd e) \<noteq> None \<and> exclusiveConsumers (snd e) \<noteq> []"
    using topicGearsAfter_busy [of calls] by (simp only: gearsBusy_def)
next
  assume "multiplexer tg \<noteq> None \<longrightarrow> exclusiveConsumers tg \<noteq> []"
  then have "muxHasInputs tg" by (simp only: muxHasInputs_def)
  then have "gearWired (rewireMultiplexer tg assigned)" by (rule gearWired_rewire)
  then show "(multiplexer (rewireMultiplexer tg assigned) \<noteq> None) =
      (exclusiveConsumers (rewireMultiplexer tg assigned) \<noteq> [])"
    by (simp only: gearWired_def)
qed

lemma rewireMultiplexer_alone_example:
  "fst ` set (exclusiveConsumers
      (rewireMultiplexer (newTopicGear \<lparr>tcTopic = ''t''\<rparr>) [(0, True), (1, True)])) = {0, 1} \<and>
   multiplexer (rewireMultiplexer (newTopicGear \<lparr>tcTopic = ''t''\<rparr>) [(0, True), (1, True)]) \<noteq> None \<and>
   topicGearsAfter [([(''t'', \<lparr>tcTopic = ''t''\<rparr>)], Inr [(''t'', [(0, True)])]),
                    ([(''t'', \<lparr>tcTopic = ''t''\<rparr>)], Inr [(''t'', [])])] = []"
proof -
  have pre: "multiplexer (newTopicGear \<lparr>tcTopic = ''t''\<rparr>) \<noteq> None \<longrightarrow>
             exclusiveConsumers (newTopicGear \<lparr>tcTopic = ''t''\<rparr>) \<noteq> []"
    by (simp add: newTopicGear_def)
  have run: "topicGearsAfter [([(''t'', \<lparr>tcTopic = ''t''\<rparr>)], Inr [(''t'', [(0, True)])]),
                    ([(''t'', \<lparr>tcTopic = ''t''\<rparr>)], Inr [(''t'', [])])] = []"
    by (simp add: topicGearsAfter_def rebalance_def addTopicGear_def rewireMultiplexer_def
          rewireLoops_def newTopicGear_def startAssigned_def stopUnassigned_def
          respawnMultiplexer_def dropIdleGear_def assignedFor_def isAssigned_def Let_def)
  from rewireMultiplexer_alone [of "newTopicGear \<lparr>tcTopic = ''t''\<rparr>" "[(0, True), (1, True)]"
      "\<lparr>tcTopic = ''t''\<rparr>" "[]" "[]" "[]" "[]"] pre
  have keys: "fst ` set (exclusiveConsumers
      (rewireMultiplexer (newTopicGear \<lparr>tcTopic = ''t''\<rparr>) [(0, True), (1, True)])) = {0, 1}"
    and wired: "(multiplexer (rewireMultiplexer (newTopicGear \<lparr>tcTopic = ''t''\<rparr>) [(0, True), (1, True)]) \<noteq> None) =
      (exclusiveConsumers (rewireMultiplexer (newTopicGear \<lparr>tcTopic = ''t''\<rparr>) [(0, True), (1, True)]) \<noteq> [])"
    by simp_all
  from keys have "exclusiveConsumers
      (rewireMultiplexer (newTopicGear \<lparr>tcTopic = ''t''\<rparr>) [(0, True), (1, True)]) \<noteq> []"
    by auto
  with keys wired run show ?thesis by simp
qed

text \<open>
  Claim C6 says that after every completed call of \<^verbatim>\<open>rewireMultiplexer(tg, assigned)\<close> the
  keys of \<^verbatim>\<open>tg.exclusiveConsumers\<close> are the assigned partitions and the multiplexer is
  present if and only if there is an exclusive consumer. The function's own comment (lines
  344-347) says the same, and it holds for a call that runs alone; the code does not make
  every call run alone. In this run a first rebalance, for topic \<open>t\<close> with partition 0,
  completes and leaves a gear with one exclusive consumer and its multiplexer. A second
  membership change starts a second rebalance, and the membership channel is then closed:
  the loop is left with that rebalance still running, and nothing at \<^verbatim>\<open>done\<close> waits for
  it. With the second rebalance calling \<^verbatim>\<open>rewireMultiplexer\<close> on the gear with partitions 0
  and 1, and \<^verbatim>\<open>done\<close> calling it with \<^verbatim>\<open>nil\<close> before the first call's last statement, the
  first call completes on a gear with no exclusive consumer and no multiplexer: its keys
  are not the assigned partitions 0 and 1.
\<close>

theorem rewireMultiplexer_overlapped_by_done:
  "topicGearsAfter [([(''t'', \<lparr>tcTopic = ''t''\<rparr>)], Inr [(''t'', [(0, True)])])] =
     [(''t'', \<lparr>topicConsumer = \<lparr>tcTopic = ''t''\<rparr>,
              multiplexer = Some (Multiplexer [ExclusiveConsumer ''t'' 0]),
              exclusiveConsumers = [(0, ExclusiveConsumer ''t'' 0)]\<rparr>)] \<and>
   rebalancing (managePartitions cfg
     [AddTopicConsumer \<lparr>tcTopic = ''t''\<rparr>, MembershipChange first, RebalanceFinished None,
      RebalanceResult, MembershipChange second, MembershipChangesClosed]) = 1 \<and>
   \<not> looping (managePartitions cfg
     [AddTopicConsumer \<lparr>tcTopic = ''t''\<rparr>, MembershipChange first, RebalanceFinished None,
      RebalanceResult, MembershipChange second, MembershipChangesClosed]) \<and>
   rewireOverlapped
     \<lparr>topicConsumer = \<lparr>tcTopic = ''t''\<rparr>,
      multiplexer = Some (Multiplexer [ExclusiveConsumer ''t'' 0]),
      exclusiveConsumers = [(0, ExclusiveConsumer ''t'' 0)]\<rparr>
     [(0, True), (1, True)] [] =
     \<lparr>topicConsumer = \<lparr>tcTopic = ''t''\<rparr>, multiplexer = None, exclusiveConsumers = []\<rparr> \<and>
   fst ` set (exclusiveConsumers
     (rewireOverlapped
        \<lparr>topicConsumer = \<lparr>tcTopic = ''t''\<rparr>,
         multiplexer = Some (Multiplexer [ExclusiveConsumer ''t'' 0]),
         exclusiveConsumers = [(0, ExclusiveConsumer ''t'' 0)]\<rparr>
        [(0, True), (1, True)] [])) \<noteq> fst ` set [(0 :: int32, True), (1, True)]"
proof -
  have gear: "topicGearsAfter [([(''t'', \<lparr>tcTopic = ''t''\<rparr>)], Inr [(''t'', [(0, True)])])] =
     [(''t'', \<lparr>topicConsumer = \<lparr>tcTopic = ''t''\<rparr>,
              multiplexer = Some (Multiplexer [ExclusiveConsumer ''t'' 0]),
              exclusiveConsumers = [(0, ExclusiveConsumer ''t'' 0)]\<rparr>)]"
    by (simp add: topicGearsAfter_def rebalance_def addTopicGear_def rewireMultiplexer_def
          rewireLoops_def newTopicGear_def startAssigned_def stopUnassigned_def
          respawnMultiplexer_def dropIdleGear_def assignedFor_def isAssigned_def Let_def)
  have run: "rewireOverlapped
     \<lparr>topicConsumer = \<lparr>tcTopic = ''t''\<rparr>,
      multiplexer = Some (Multiplexer [ExclusiveConsumer ''t'' 0]),
      exclusiveConsumers = [(0, ExclusiveConsumer ''t'' 0)]\<rparr>
     [(0, True), (1, True)] [] =
     \<lparr>topicConsumer = \<lparr>tcTopic = ''t''\<rparr>, multiplexer = None, exclusiveConsumers = []\<rparr>"
    by (simp add: rewireOverlapped_def rewireMultiplexer_def rewireLoops_def startAssigned_def
          stopUnassigned_def respawnMultiplexer_def isAssigned_def)
  have mp: "rebalancing (managePartitions cfg
     [AddTopicConsumer \<lparr>tcTopic = ''t''\<rparr>, MembershipChange first, RebalanceFinished None,
      RebalanceResult, MembershipChange second, MembershipChangesClosed]) = 1"
    "\<not> looping (managePartitions cfg
     [AddTopicConsumer \<lparr>tcTopic = ''t''\<rparr>, MembershipChange first, RebalanceFinished None,
      RebalanceResult, MembershipChange second, MembershipChangesClosed])"
    by (simp_all add: managePartitions_def mpStep_def mpInit_def mpRebalanceIfDue_def Let_def)
  from gear mp show ?thesis unfolding run by simp
qed

text \<open>
  Claim C8 has \<^verbatim>\<open>shouldRebalance\<close> set when the error result arrives. The code does not set
  it there (lines 265-271): after a membership change, a rebalance that fails and the
  receipt of its error, \<^verbatim>\<open>canRebalance\<close> is true and the retry timer is armed with
  \<^verbatim>\<open>BackOffTimeout\<close>, and \<^verbatim>\<open>shouldRebalance\<close> is still false.
\<close>

theorem managePartitions_error_result_counterexample:
  "\<not> shouldRebalance
     (managePartitions \<lparr>ClientID = ''A'', ChannelBufferSize = 1, LongPollingTimeout = 3000000000,
                         BackOffTimeout = 500000000\<rparr>
        [MembershipChange [(''A'', [''t''])], RebalanceFinished (Some (Errorf ''no partitions'')),
         RebalanceResult]) \<and>
   canRebalance
     (managePartitions \<lparr>ClientID = ''A'', ChannelBufferSize = 1, LongPollingTimeout = 3000000000,
                         BackOffTimeout = 500000000\<rparr>
        [MembershipChange [(''A'', [''t''])], RebalanceFinished (Some (Errorf ''no partitions'')),
         RebalanceResult]) \<and>
   nilOrRetryCh
     (managePartitions \<lparr>ClientID = ''A'', ChannelBufferSize = 1, LongPollingTimeout = 3000000000,
                         BackOffTimeout = 500000000\<rparr>
        [MembershipChange [(''A'', [''t''])], RebalanceFinished (Some (Errorf ''no partitions'')),
         RebalanceResult]) = RetryAfter 500000000 \<and>
   rebalanceResultCh
     (managePartitions \<lparr>ClientID = ''A'', ChannelBufferSize = 1, LongPollingTimeout = 3000000000,
                         BackOffTimeout = 500000000\<rparr>
        [MembershipChange [(''A'', [''t''])], RebalanceFinished (Some (Errorf ''no partitions''))]) =
     [Some (Errorf ''no partitions'')]"
  by (simp add: managePartitions_def mpStep_def mpInit_def mpRebalanceIfDue_def)

text \<open>
  Claim C8, as amended. A step that receives a rebalance result sets \<^verbatim>\<open>canRebalance\<close>. If
  the result is nil the step goes on to the rebalance check. If it is an error the step
  arms the retry timer with \<^verbatim>\<open>BackOffTimeout\<close> and ends there, leaving \<^verbatim>\<open>shouldRebalance\<close> as
  it was and starting no rebalance; it is the step that receives the tick of that timer
  which sets \<^verbatim>\<open>shouldRebalance\<close>, and it starts a rebalance on the current snapshot. In
  every reachable state where the loop runs and a retry timer is pending, the timer was
  armed with \<^verbatim>\<open>BackOffTimeout\<close> and its tick starts a rebalance.
\<close>

theorem managePartitions_retries_failed_rebalance:
  "(looping s \<and> rebalanceResultCh s = result # rest \<longrightarrow>
     canRebalance (fst (mpSelect cfg s RebalanceResult)) \<and>
     (result = None \<longrightarrow>
        mpStep cfg s RebalanceResult =
          mpRebalanceIfDue (s\<lparr>rebalanceResultCh := rest, canRebalance := True\<rparr>)) \<and>
     (\<forall>err. result = Some err \<longrightarrow>
        mpStep cfg s RebalanceResult =
          s\<lparr>rebalanceResultCh := rest, canRebalance := True,
            nilOrRetryCh := RetryAfter (BackOffTimeout cfg)\<rparr> \<and>
        shouldRebalance (mpStep cfg s RebalanceResult) = shouldRebalance s \<and>
        rebalances (mpStep cfg s RebalanceResult) = rebalances s \<and>
        shouldRebalance (fst (mpSelect cfg (mpStep cfg s RebalanceResult) RetryTick)) \<and>
        mpStep cfg (mpStep cfg s RebalanceResult) RetryTick =
          s\<lparr>rebalanceResultCh := rest, nilOrRetryCh := RetrySpent,
            rebalancing := rebalancing s + 1,
            rebalances := rebalances s @ [(topicConsumers s, memberSubscriptions s)],
            shouldRebalance := False, canRebalance := False\<rparr>)) \<and>
   (looping (managePartitions cfg evs) \<and> nilOrRetryCh (managePartitions cfg evs) = RetryAfter d \<longrightarrow>
      d = BackOffTimeout cfg \<and>
      managePartitions cfg (evs @ [RetryTick]) =
        (managePartitions cfg evs)\<lparr>nilOrRetryCh := RetrySpent,
           rebalancing := rebalancing (managePartitions cfg evs) + 1,
           rebalances := rebalances (managePartitions cfg evs) @
              [(topicConsumers (managePartitions cfg evs), memberSubscriptions (managePartitions cfg evs))],
           shouldRebalance := False, canRebalance := False\<rparr>)"
proof (intro conjI)
  show "looping s \<and> rebalanceResultCh s = result # rest \<longrightarrow>
     canRebalance (fst (mpSelect cfg s RebalanceResult)) \<and>
     (result = None \<longrightarrow>
        mpStep cfg s RebalanceResult =
          mpRebalanceIfDue (s\<lparr>rebalanceResultCh := rest, canRebalance := True\<rparr>)) \<and>
     (\<forall>err. result = Some err \<longrightarrow>
        mpStep cfg s RebalanceResult =
          s\<lparr>rebalanceResultCh := rest, canRebalance := True,
            nilOrRetryCh := RetryAfter (BackOffTimeout cfg)\<rparr> \<and>
        shouldRebalance (mpStep cfg s RebalanceResult) = shouldRebalance s \<and>
        rebalances (mpStep cfg s RebalanceResult) = rebalances s \<and>
        shouldRebalance (fst (mpSelect cfg (mpStep cfg s RebalanceResult) RetryTick)) \<and>
        mpStep cfg (mpStep cfg s RebalanceResult) RetryTick =
          s\<lparr>rebalanceResultCh := rest, nilOrRetryCh := RetrySpent,
            rebalancing := rebalancing s + 1,
            rebalances := rebalances s @ [(topicConsumers s, memberSubscriptions s)],
            shouldRebalance := False, canRebalance := False\<rparr>)"
    by (cases result) (auto simp: mpStep_def mpRebalanceIfDue_def)
  show "looping (managePartitions cfg evs) \<and> nilOrRetryCh (managePartitions cfg evs) = RetryAfter d \<longrightarrow>
      d = BackOffTimeout cfg \<and>
      managePartitions cfg (evs @ [RetryTick]) =
        (managePartitions cfg evs)\<lparr>nilOrRetryCh := RetrySpent,
           rebalancing := rebalancing (managePartitions cfg evs) + 1,
           rebalances := rebalances (managePartitions cfg evs) @
              [(topicConsumers (managePartitions cfg evs), memberSubscriptions (managePartitions cfg evs))],
           shouldRebalance := False, canRebalance := False\<rparr>"
    using run_retry [of cfg evs d] by blast
qed

theorem managePartitions_retries_failed_rebalance_witness:
  "rebalances
     (managePartitions \<lparr>ClientID = ''A'', ChannelBufferSize = 1, LongPollingTimeout = 3000000000,
                         BackOffTimeout = 500000000\<rparr>
        [MembershipChange [(''A'', [''t''])], RebalanceFinished (Some (Errorf ''no partitions'')),
         RebalanceResult, RetryTick]) =
     [([], [(''A'', [''t''])]), ([], [(''A'', [''t''])])]"
proof -
  let ?cfg = "\<lparr>ClientID = ''A'', ChannelBufferSize = 1, LongPollingTimeout = 3000000000,
               BackOffTimeout = 500000000\<rparr>"
  let ?evs = "[MembershipChange [(''A'', [''t''])], RebalanceFinished (Some (Errorf ''no partitions'')),
       RebalanceResult]"
  have s: "managePartitions ?cfg ?evs =
      mpInit\<lparr>memberSubscriptions := [(''A'', [''t''])], canRebalance := True,
        nilOrRetryCh := RetryAfter (BackOffTimeout ?cfg),
        rebalances := [([], [(''A'', [''t''])])]\<rparr>"
    by (simp add: managePartitions_def mpStep_def mpInit_def mpRebalanceIfDue_def)
  then have "looping (managePartitions ?cfg ?evs) \<and>
      nilOrRetryCh (managePartitions ?cfg ?evs) = RetryAfter (BackOffTimeout ?cfg)"
    by (simp add: mpInit_def)
  with managePartitions_retries_failed_rebalance [of mpInit None "[]" ?cfg ?evs "BackOffTimeout ?cfg"]
  have "managePartitions ?cfg (?evs @ [RetryTick]) =
        (managePartitions ?cfg ?evs)\<lparr>nilOrRetryCh := RetrySpent,
           rebalancing := rebalancing (managePartitions ?cfg ?evs) + 1,
           rebalances := rebalances (managePartitions ?cfg ?evs) @
              [(topicConsumers (managePartitions ?cfg ?evs), memberSubscriptions (managePartitions ?cfg ?evs))],
           shouldRebalance := False, canRebalance := False\<rparr>"
    by blast
  then show ?thesis unfolding s by (simp add: mpInit_def)
qed

section \<open>Properties of the topic consumer\<close>

lemma sint_of_int_small:
  assumes "- (2 ^ 63) \<le> d" "d < 2 ^ 63"
  shows "sint (word_of_int d :: int64) = d"
proof -
  have "sint (word_of_int d :: int64) = signed_take_bit 63 d"
    by (simp add: sint_sbintrunc')
  also have "\<dots> = d"
    using assms by (intro signed_take_bit_int_eq_self) simp_all
  finally show ?thesis .
qed

lemma sint_timeSub:
  assumes "\<bar>t - u\<bar> < 2 ^ 62"
  shows "sint (timeSub t u) = t - u"
proof -
  have "(2::int) ^ 62 < 2 ^ 63" by simp
  with assms have b: "- (2 ^ 63) \<le> t - u" "t - u < 2 ^ 63" "\<not> t - u > 2 ^ 63 - 1" "\<not> t - u < - (2 ^ 63)"
    by linarith+
  then have "timeSub t u = word_of_int (t - u)" by (simp add: timeSub_def)
  with sint_of_int_small [OF b(1,2)] show ?thesis by simp
qed

lemma sint_requestTtl:
  assumes "\<bar>now - timestamp req\<bar> < 2 ^ 62" "\<bar>sint (LongPollingTimeout cfg)\<bar> < 2 ^ 62"
  shows "sint (requestTtl cfg req now) = sint (LongPollingTimeout cfg) - (now - timestamp req)"
proof -
  have age: "sint (timeSub now (timestamp req)) = now - timestamp req"
    using assms(1) by (rule sint_timeSub)
  have "sint (LongPollingTimeout cfg - timeSub now (timestamp req)) =
        signed_take_bit 63 (sint (LongPollingTimeout cfg) - sint (timeSub now (timestamp req)))"
    by (simp add: sint_word_ariths)
  also have "\<dots> = sint (LongPollingTimeout cfg) - (now - timestamp req)"
  proof -
    have "(2::int) ^ 63 = 2 * 2 ^ 62" by simp
    with assms have "- (2 ^ 63) \<le> sint (LongPollingTimeout cfg) - (now - timestamp req)"
      and "sint (LongPollingTimeout cfg) - (now - timestamp req) < 2 ^ 63"
      by linarith+
    then show ?thesis unfolding age by (rule signed_take_bit_int_eq_self)
  qed
  finally show ?thesis by (simp add: requestTtl_def)
qed

lemma repliesOn_append: "repliesOn ch (xs @ ys) = repliesOn ch xs @ repliesOn ch ys"
  by (simp add: repliesOn_def)

lemma repliesOn_simps:
  "repliesOn ch [] = []"
  "repliesOn ch (Reply c res # es) = (if c = ch then res # repliesOn ch es else repliesOn ch es)"
  "repliesOn ch (MessageConsumed msg # es) = repliesOn ch es"
  "repliesOn ch (TimeAfter d # es) = repliesOn ch es"
  by (simp_all add: repliesOn_def)

lemma replies_serveRequest:
  "\<exists>res. properReply res \<and> res \<noteq> overflowResult \<and>
     (\<forall>ch. repliesOn ch (serveRequest cfg req now outcome) = (if replyCh req = ch then [res] else []))"
proof (cases "sint (requestTtl cfg req now) \<le> 0")
  case True
  then have "serveRequest cfg req now outcome = [Reply (replyCh req) timeoutResult]"
    by (simp add: serveRequest_def)
  then show ?thesis
    by (intro exI [of _ timeoutResult])
       (simp add: repliesOn_simps properReply_def timeoutResult_def overflowResult_def)
next
  case False
  show ?thesis
  proof (cases outcome)
    case (MessageReceived msg)
    with False have "serveRequest cfg req now outcome =
        [MessageConsumed msg, Reply (replyCh req) \<lparr>Msg = Some msg, Err = None\<rparr>]"
      by (simp add: serveRequest_def)
    then show ?thesis
      by (intro exI [of _ "\<lparr>Msg = Some msg, Err = None\<rparr>"])
         (simp add: repliesOn_simps properReply_def overflowResult_def)
  next
    case TimerFired
    with False have "serveRequest cfg req now outcome =
        [TimeAfter (requestTtl cfg req now), Reply (replyCh req) timeoutResult]"
      by (simp add: serveRequest_def)
    then show ?thesis
      by (intro exI [of _ timeoutResult])
         (simp add: repliesOn_simps properReply_def timeoutResult_def overflowResult_def)
  qed
qed

lemma length_replies_serveRequest:
  "length (repliesOn ch (serveRequest cfg req now outcome)) = (if replyCh req = ch then 1 else 0)"
  using replies_serveRequest [of cfg req now outcome] by auto

lemma proper_replies_serveRequest:
  assumes "res \<in> set (repliesOn ch (serveRequest cfg req now outcome))"
  shows "properReply res"
proof -
  from replies_serveRequest [of cfg req now outcome]
  obtain r where r: "properReply r"
    and eq: "repliesOn ch (serveRequest cfg req now outcome) = (if replyCh req = ch then [r] else [])"
    by blast
  from assms eq have "res = r" by (simp split: if_splits)
  with r show ?thesis by simp
qed

lemma length_replies_served:
  "length (repliesOn ch (concat (map (\<lambda>r. serveRequest cfg r (fst (found r)) (snd (found r))) q))) =
     length (filter (\<lambda>r. replyCh r = ch) q)"
  by (induction q) (simp_all add: repliesOn_simps repliesOn_append length_replies_serveRequest)

lemma proper_replies_served:
  "res \<in> set (repliesOn ch (concat (map (\<lambda>r. serveRequest cfg r (fst (found r)) (snd (found r))) q))) \<Longrightarrow>
     properReply res"
  by (induction q) (auto simp: repliesOn_simps repliesOn_append dest: proper_replies_serveRequest)

lemma submittedRequests_append:
  "submittedRequests (xs @ ys) = submittedRequests xs @ submittedRequests ys"
  by (simp add: submittedRequests_def)

lemma repliesBalance_step:
  assumes "repliesBalance s handed"
  shows "repliesBalance (tcSystemStep cfg s op) (handed @ submittedRequests [op])"
proof (cases op)
  case AddedToGroup
  then show ?thesis
    using assms by (simp add: repliesBalance_def tcSystemStep_def submittedRequests_def)
next
  case (Submit req)
  then show ?thesis
    using assms
    by (auto simp: repliesBalance_def tcSystemStep_def dispatch_def submittedRequests_def
          repliesOn_append repliesOn_simps)
next
  case (Serve now outcome)
  show ?thesis
  proof (cases "addedToGroup s")
    case False
    then show ?thesis
      using assms Serve by (simp add: tcSystemStep_def submittedRequests_def)
  next
    case True
    show ?thesis
    proof (cases "requestsCh s")
      case Nil
      then show ?thesis
        using assms Serve by (simp add: tcSystemStep_def submittedRequests_def)
    next
      case (Cons req rest)
      have "length (repliesOn ch (effects s @ serveRequest cfg req now outcome)) +
              length (filter (\<lambda>r. replyCh r = ch) rest) =
            length (filter (\<lambda>r. replyCh r = ch) handed)" for ch
      proof -
        from assms have "length (repliesOn ch (effects s)) +
            length (filter (\<lambda>r. replyCh r = ch) (req # rest)) =
            length (filter (\<lambda>r. replyCh r = ch) handed)"
          by (simp only: repliesBalance_def Cons)
        then show ?thesis
          by (cases "replyCh req = ch") (simp_all add: repliesOn_append length_replies_serveRequest)
      qed
      then show ?thesis
        using Serve Cons True by (simp add: repliesBalance_def tcSystemStep_def submittedRequests_def)
    qed
  qed
qed

lemma repliesBalance_foldl:
  "repliesBalance s handed \<Longrightarrow>
   repliesBalance (foldl (tcSystemStep cfg) s ops) (handed @ submittedRequests ops)"
proof (induction ops arbitrary: s handed)
  case Nil
  then show ?case by (simp add: submittedRequests_def)
next
  case (Cons op ops)
  from repliesBalance_step [OF Cons.prems, of cfg op]
  have "repliesBalance (tcSystemStep cfg s op) (handed @ submittedRequests [op])" .
  from Cons.IH [OF this] show ?case
    by (simp add: submittedRequests_def)
qed

lemma properReplies_step: "properReplies s \<Longrightarrow> properReplies (tcSystemStep cfg s op)"
proof (cases op)
  case AddedToGroup
  assume "properReplies s"
  then show ?thesis
    using AddedToGroup by (simp add: properReplies_def tcSystemStep_def)
next
  case (Submit req)
  assume "properReplies s"
  then show ?thesis
    using Submit
    by (auto simp: properReplies_def tcSystemStep_def dispatch_def repliesOn_append repliesOn_simps
          properReply_def split: if_splits)
next
  case (Serve now outcome)
  assume "properReplies s"
  then show ?thesis
    using Serve
    by (auto simp: properReplies_def tcSystemStep_def repliesOn_append
          split: list.splits if_splits dest: proper_replies_serveRequest)
qed

lemma properReplies_foldl: "properReplies s \<Longrightarrow> properReplies (foldl (tcSystemStep cfg) s ops)"
  by (induction ops arbitrary: s) (simp_all add: properReplies_step)

lemma properReplies_stop: "properReplies s \<Longrightarrow> properReplies (tcSystemStop cfg found s)"
  by (auto simp: properReplies_def tcSystemStop_def repliesOn_append repliesOn_simps
        dest: proper_replies_served)

lemma properReplies_run: "properReplies (tcSystemRun cfg found ops)"
  unfolding tcSystemRun_def
  by (intro properReplies_stop properReplies_foldl)
     (simp add: properReplies_def tcSystemStart_def repliesOn_simps)

lemma addedToGroup_step:
  "addedToGroup (tcSystemStep cfg s op) = (addedToGroup s \<or> op = AddedToGroup)"
  by (cases op) (auto simp: tcSystemStep_def dispatch_def split: list.splits)

lemma addedToGroup_foldl:
  "addedToGroup (foldl (tcSystemStep cfg) s ops) = (addedToGroup s \<or> AddedToGroup \<in> set ops)"
  by (induction ops arbitrary: s) (auto simp: addedToGroup_step)

text \<open>
  Whatever the interleaving, the replies sent on a channel and the requests with that
  channel still in the queue add up to the requests handed over with it.
\<close>

lemma replies_and_queue:
  "length (repliesOn ch (effects (foldl (tcSystemStep cfg) tcSystemStart ops))) +
   length (filter (\<lambda>r. replyCh r = ch) (requestsCh (foldl (tcSystemStep cfg) tcSystemStart ops))) =
     length (filter (\<lambda>r. replyCh r = ch) (submittedRequests ops))"
proof -
  have "repliesBalance tcSystemStart []"
    by (simp add: repliesBalance_def tcSystemStart_def repliesOn_simps)
  from repliesBalance_foldl [OF this, of cfg ops] show ?thesis
    by (simp add: repliesBalance_def)
qed

text \<open>
  Once the group consumer has received the topic consumer, the stop leaves nothing in
  the queue, and the number of results sent on a reply channel is the number of requests
  handed over with that channel; each is a message, the request-timeout error or the
  buffer-overflow error.
\<close>

lemma replies_run:
  assumes "AddedToGroup \<in> set ops"
  shows "length (repliesOn ch (effects (tcSystemRun cfg found ops))) =
           length (filter (\<lambda>r. replyCh r = ch) (submittedRequests ops)) \<and>
         requestsCh (tcSystemRun cfg found ops) = []"
proof -
  let ?s = "foldl (tcSystemStep cfg) tcSystemStart ops"
  from assms have added: "addedToGroup ?s" by (simp add: addedToGroup_foldl)
  from replies_and_queue [of ch cfg ops] added show ?thesis
    by (simp add: tcSystemRun_def tcSystemStop_def repliesOn_append length_replies_served)
qed

text \<open>
  While the group consumer has not received the topic consumer, the loop serves nothing:
  the only results sent are the buffer overflows of the dispatcher, and the stop leaves
  the queue as it is.
\<close>

lemma not_added_step:
  assumes "\<not> addedToGroup s" "op \<noteq> AddedToGroup"
  shows "\<not> addedToGroup (tcSystemStep cfg s op) \<and>
         tcSystemStep cfg s op =
           (case op of Submit req \<Rightarrow> (if length (requestsCh s) < ChannelBufferSize cfg
                                         then s\<lparr>requestsCh := requestsCh s @ [req]\<rparr>
                                         else s\<lparr>effects := effects s @ [Reply (replyCh req) overflowResult]\<rparr>)
                     | _ \<Rightarrow> s)"
  using assms by (cases op) (simp_all add: tcSystemStep_def dispatch_def)

lemma not_added_run:
  assumes "AddedToGroup \<notin> set ops"
  shows "tcSystemRun cfg found ops = foldl (tcSystemStep cfg) tcSystemStart ops"
proof -
  from assms have "\<not> addedToGroup (foldl (tcSystemStep cfg) tcSystemStart ops)"
    by (simp add: addedToGroup_foldl tcSystemStart_def)
  then show ?thesis by (simp add: tcSystemRun_def tcSystemStop_def)
qed

text \<open>After the loop of \<^verbatim>\<open>managePartitions\<close> has ended, nothing is received from the topic consumers.\<close>

lemma not_looping_step:
  "\<not> looping s \<Longrightarrow> \<not> looping (mpStep cfg s ev) \<and> topicConsumers (mpStep cfg s ev) = topicConsumers s"
  by (cases ev) (simp_all add: mpStep_def)

lemma not_looping_foldl:
  "\<not> looping s \<Longrightarrow>
   \<not> looping (foldl (mpStep cfg) s evs) \<and> topicConsumers (foldl (mpStep cfg) s evs) = topicConsumers s"
proof (induction evs arbitrary: s)
  case Nil
  then show ?case by simp
next
  case (Cons ev evs)
  from not_looping_step [OF Cons.prems, of cfg ev]
  have "\<not> looping (mpStep cfg s ev)" and t: "topicConsumers (mpStep cfg s ev) = topicConsumers s"
    by simp_all
  from Cons.IH [OF this(1)] t show ?case by simp
qed

text \<open>
  Claim C4. For a request taken from the queue, with \<open>ttl\<close> the value the code computes as
  \<^verbatim>\<open>LongPollingTimeout - now.Sub(request.timestamp)\<close>: if \<open>ttl \<le> 0\<close> the only thing done is
  the reply with the request-timeout error, whatever the messages channel offers: no
  message is taken from it and no timer is waited for. Otherwise the loop either receives
  a message from the messages channel and replies with it, or receives from the timer
  \<^verbatim>\<open>time.After(ttl)\<close>, that is after the duration \<open>ttl\<close> has elapsed, and then replies with
  the request-timeout error. A timer is waited for only in this last case and its
  duration is \<open>ttl\<close>; a request-timeout reply sent when \<open>ttl\<close> is positive always comes
  after that wait. As long as the age of the request and the timeout are below \<open>2^62\<close>
  nanoseconds in absolute value (146 years), \<open>ttl\<close> is exactly the timeout minus the age.
\<close>

theorem topicConsumer_replies_within_ttl:
  "(sint (requestTtl cfg req now) \<le> 0 \<longrightarrow>
      serveRequest cfg req now outcome = [Reply (replyCh req) timeoutResult]) \<and>
   (0 < sint (requestTtl cfg req now) \<longrightarrow>
      serveRequest cfg req now (MessageReceived msg) =
        [MessageConsumed msg, Reply (replyCh req) \<lparr>Msg = Some msg, Err = None\<rparr>] \<and>
      serveRequest cfg req now TimerFired =
        [TimeAfter (requestTtl cfg req now), Reply (replyCh req) timeoutResult]) \<and>
   (TimeAfter d \<in> set (serveRequest cfg req now outcome) \<longrightarrow>
      d = requestTtl cfg req now \<and> 0 < sint d \<and> outcome = TimerFired) \<and>
   (0 < sint (requestTtl cfg req now) \<and> Reply c timeoutResult \<in> set (serveRequest cfg req now outcome) \<longrightarrow>
      serveRequest cfg req now outcome =
        [TimeAfter (requestTtl cfg req now), Reply (replyCh req) timeoutResult]) \<and>
   (MessageConsumed m \<in> set (serveRequest cfg req now outcome) \<longrightarrow>
      0 < sint (requestTtl cfg req now) \<and> outcome = MessageReceived m) \<and>
   (\<bar>now - timestamp req\<bar> < 2 ^ 62 \<and> \<bar>sint (LongPollingTimeout cfg)\<bar> < 2 ^ 62 \<longrightarrow>
      sint (requestTtl cfg req now) = sint (LongPollingTimeout cfg) - (now - timestamp req)) \<and>
   Msg timeoutResult = None \<and> (\<exists>text. Err timeoutResult = Some (ErrRequestTimeout text))"
proof (intro conjI impI)
  assume "sint (requestTtl cfg req now) \<le> 0"
  then show "serveRequest cfg req now outcome = [Reply (replyCh req) timeoutResult]"
    by (simp add: serveRequest_def)
next
  assume "0 < sint (requestTtl cfg req now)"
  then show "serveRequest cfg req now (MessageReceived msg) =
        [MessageConsumed msg, Reply (replyCh req) \<lparr>Msg = Some msg, Err = None\<rparr>]"
    and "serveRequest cfg req now TimerFired =
        [TimeAfter (requestTtl cfg req now), Reply (replyCh req) timeoutResult]"
    by (simp_all add: serveRequest_def)
next
  assume a: "TimeAfter d \<in> set (serveRequest cfg req now outcome)"
  then show "d = requestTtl cfg req now"
    by (cases outcome) (auto simp: serveRequest_def Let_def split: if_splits)
  from a show "0 < sint d"
    by (cases outcome) (auto simp: serveRequest_def Let_def split: if_splits)
  from a show "outcome = TimerFired"
    by (cases outcome) (auto simp: serveRequest_def Let_def split: if_splits)
next
  assume "0 < sint (requestTtl cfg req now) \<and> Reply c timeoutResult \<in> set (serveRequest cfg req now outcome)"
  then show "serveRequest cfg req now outcome =
        [TimeAfter (requestTtl cfg req now), Reply (replyCh req) timeoutResult]"
    by (cases outcome) (auto simp: serveRequest_def Let_def timeoutResult_def split: if_splits)
next
  assume a: "MessageConsumed m \<in> set (serveRequest cfg req now outcome)"
  then show "0 < sint (requestTtl cfg req now)"
    by (cases outcome) (auto simp: serveRequest_def Let_def split: if_splits)
  from a show "outcome = MessageReceived m"
    by (cases outcome) (auto simp: serveRequest_def Let_def split: if_splits)
next
  assume "\<bar>now - timestamp req\<bar> < 2 ^ 62 \<and> \<bar>sint (LongPollingTimeout cfg)\<bar> < 2 ^ 62"
  then show "sint (requestTtl cfg req now) = sint (LongPollingTimeout cfg) - (now - timestamp req)"
    by (simp add: sint_requestTtl)
next
  show "Msg timeoutResult = None" by (simp add: timeoutResult_def)
  show "\<exists>text. Err timeoutResult = Some (ErrRequestTimeout text)" by (simp add: timeoutResult_def)
qed

theorem topicConsumer_replies_within_ttl_witness:
  "serveRequest \<lparr>ClientID = ''A'', ChannelBufferSize = 1, LongPollingTimeout = 3000000000,
                 BackOffTimeout = 500000000\<rparr>
     \<lparr>timestamp = 0, group = ''g'', topic = ''t'', replyCh = 1\<rparr> 4000000000
     (MessageReceived \<lparr>Offset = 5\<rparr>) = [Reply 1 timeoutResult] \<and>
   serveRequest \<lparr>ClientID = ''A'', ChannelBufferSize = 1, LongPollingTimeout = 3000000000,
                 BackOffTimeout = 500000000\<rparr>
     \<lparr>timestamp = 0, group = ''g'', topic = ''t'', replyCh = 1\<rparr> 1000000000
     (MessageReceived \<lparr>Offset = 5\<rparr>) =
       [MessageConsumed \<lparr>Offset = 5\<rparr>, Reply 1 \<lparr>Msg = Some \<lparr>Offset = 5\<rparr>, Err = None\<rparr>] \<and>
   serveRequest \<lparr>ClientID = ''A'', ChannelBufferSize = 1, LongPollingTimeout = 3000000000,
                 BackOffTimeout = 500000000\<rparr>
     \<lparr>timestamp = 0, group = ''g'', topic = ''t'', replyCh = 1\<rparr> 1000000000 TimerFired =
       [TimeAfter 2000000000, Reply 1 timeoutResult]"
proof -
  let ?cfg = "\<lparr>ClientID = ''A'', ChannelBufferSize = 1, LongPollingTimeout = 3000000000,
                 BackOffTimeout = 500000000\<rparr>"
  let ?req = "\<lparr>timestamp = 0, group = ''g'', topic = ''t'', replyCh = 1\<rparr>"
  have late: "sint (requestTtl ?cfg ?req 4000000000) \<le> 0"
    by (simp add: requestTtl_def timeSub_def)
  have ttl: "requestTtl ?cfg ?req 1000000000 = 2000000000"
    by (simp add: requestTtl_def timeSub_def)
  have early: "0 < sint (requestTtl ?cfg ?req 1000000000)"
    unfolding ttl by simp
  note late_case = topicConsumer_replies_within_ttl
    [of ?cfg ?req 4000000000 "MessageReceived \<lparr>Offset = 5\<rparr>" "\<lparr>Offset = 5\<rparr>" 0 0 "\<lparr>Offset = 5\<rparr>",
     THEN conjunct1]
  from late_case late
  have 1: "serveRequest ?cfg ?req 4000000000 (MessageReceived \<lparr>Offset = 5\<rparr>) =
       [Reply (replyCh ?req) timeoutResult]"
    by (rule mp)
  note early_case = topicConsumer_replies_within_ttl
    [of ?cfg ?req 1000000000 TimerFired "\<lparr>Offset = 5\<rparr>" 0 0 "\<lparr>Offset = 5\<rparr>",
     THEN conjunct2, THEN conjunct1]
  from early_case early
  have both: "serveRequest ?cfg ?req 1000000000 (MessageReceived \<lparr>Offset = 5\<rparr>) =
       [MessageConsumed \<lparr>Offset = 5\<rparr>, Reply (replyCh ?req) \<lparr>Msg = Some \<lparr>Offset = 5\<rparr>, Err = None\<rparr>] \<and>
     serveRequest ?cfg ?req 1000000000 TimerFired =
       [TimeAfter (requestTtl ?cfg ?req 1000000000), Reply (replyCh ?req) timeoutResult]"
    by (rule mp)
  from both have 2: "serveRequest ?cfg ?req 1000000000 (MessageReceived \<lparr>Offset = 5\<rparr>) =
       [MessageConsumed \<lparr>Offset = 5\<rparr>, Reply 1 \<lparr>Msg = Some \<lparr>Offset = 5\<rparr>, Err = None\<rparr>]"
    and 3: "serveRequest ?cfg ?req 1000000000 TimerFired =
       [TimeAfter (requestTtl ?cfg ?req 1000000000), Reply 1 timeoutResult]"
    by simp_all
  from 1 have 1: "serveRequest ?cfg ?req 4000000000 (MessageReceived \<lparr>Offset = 5\<rparr>) = [Reply 1 timeoutResult]"
    by simp
  from 1 2 3 show ?thesis unfolding ttl by simp
qed

text \<open>
  Claim C7 says that every request receives exactly one reply, and the comment of
  \<^verbatim>\<open>Consume\<close> (lines 97-107) promises a message or an error after at most the long polling
  timeout. That holds for every request of a topic consumer that the group consumer has
  received (\<open>replies_run\<close>), and it fails for this input. The membership channel of the
  registry is closed, so the loop of \<^verbatim>\<open>managePartitions\<close> ends, and from then on it receives
  no topic consumer, whatever happens. The group consumer is not stopped by that, and a
  request for topic \<open>t\<close> makes its dispatcher start a topic consumer, whose \<^verbatim>\<open>run\<close> stays at
  the send of line 523. The request is put into the queue and is never taken from it, not
  even when the queue is closed by \<^verbatim>\<open>stop\<close>: nothing is sent on its reply channel, and
  \<^verbatim>\<open>Consume\<close> does not return.
\<close>

theorem consumeRequest_without_reply:
  "\<not> looping (managePartitions cfg (MembershipChangesClosed # evs)) \<and>
   topicConsumers (managePartitions cfg (MembershipChangesClosed # evs)) = [] \<and>
   tcSystemRun \<lparr>ClientID = ''A'', ChannelBufferSize = 1, LongPollingTimeout = 3000000000,
                 BackOffTimeout = 500000000\<rparr> found
     [Submit \<lparr>timestamp = 0, group = ''g'', topic = ''t'', replyCh = 1\<rparr>, Serve now outcome] =
     \<lparr>addedToGroup = False,
      requestsCh = [\<lparr>timestamp = 0, group = ''g'', topic = ''t'', replyCh = 1\<rparr>],
      effects = []\<rparr> \<and>
   Consume (repliesOn 1 (effects
     (tcSystemRun \<lparr>ClientID = ''A'', ChannelBufferSize = 1, LongPollingTimeout = 3000000000,
                   BackOffTimeout = 500000000\<rparr> found
        [Submit \<lparr>timestamp = 0, group = ''g'', topic = ''t'', replyCh = 1\<rparr>, Serve now outcome]))) =
     None"
proof -
  have run: "tcSystemRun \<lparr>ClientID = ''A'', ChannelBufferSize = 1, LongPollingTimeout = 3000000000,
                 BackOffTimeout = 500000000\<rparr> found
     [Submit \<lparr>timestamp = 0, group = ''g'', topic = ''t'', replyCh = 1\<rparr>, Serve now outcome] =
     \<lparr>addedToGroup = False,
      requestsCh = [\<lparr>timestamp = 0, group = ''g'', topic = ''t'', replyCh = 1\<rparr>],
      effects = []\<rparr>"
    by (simp add: tcSystemRun_def tcSystemStop_def tcSystemStep_def tcSystemStart_def dispatch_def)
  have closed: "\<not> looping (mpStep cfg mpInit MembershipChangesClosed)"
    "topicConsumers (mpStep cfg mpInit MembershipChangesClosed) = []"
    by (simp_all add: mpStep_def mpInit_def)
  from not_looping_foldl [OF closed(1), of cfg evs] closed(2)
  have "\<not> looping (managePartitions cfg (MembershipChangesClosed # evs))"
    and "topicConsumers (managePartitions cfg (MembershipChangesClosed # evs)) = []"
    by (simp_all add: managePartitions_def)
  then show ?thesis unfolding run by (simp add: Consume_def repliesOn_simps)
qed
end
